theory Spec2Isabelle
  imports Complex_Main "HOL-Library.AList"
begin

section \<open>JavaScript values, path lookup and message interpolation (the L facade)\<close>

text \<open>
  The values an assertion context can hold: plain data.  Objects are association lists of
  their own properties in insertion order; properties inherited from a prototype are not
  part of the model.  Numbers are the integers, strings are 8-bit character lists.
\<close>

datatype jsval =
    JUndefined
  | JNull
  | JBool bool
  | JNum int
  | JStr string
  | JArr "jsval list"
  | JObj "(string \<times> jsval) list"

datatype token = Idx nat | Key string

definition is_digit :: "char \<Rightarrow> bool" where
  "is_digit c = (c \<in> set ''0123456789'')"

definition is_word :: "char \<Rightarrow> bool" where
  "is_word c = (c \<in> set ''abcdefghijklmnopqrstuvwxyzABCDEFGHIJKLMNOPQRSTUVWXYZ0123456789_'')"

text \<open>The class \<open>\s\<close> of a regular expression, on 8-bit characters.\<close>

definition is_space :: "char \<Rightarrow> bool" where
  "is_space c = (c \<in> set [CHR '' '', CHR 0x09, CHR 0x0A, CHR 0x0B, CHR 0x0C, CHR 0x0D, CHR 0xA0])"

text \<open>The class \<open>[\w.[\]0-9]\<close> of the placeholder pattern.\<close>

definition is_path_char :: "char \<Rightarrow> bool" where
  "is_path_char c = (is_word c \<or> c \<in> set ''.[]'')"

text \<open>The class \<open>[^[.\]]\<close> of the path tokenizer.\<close>

definition is_key_char :: "char \<Rightarrow> bool" where
  "is_key_char c = (c \<notin> set ''[.]'')"

definition digit_val :: "char \<Rightarrow> nat" where
  "digit_val c = of_char c - 48"

text \<open>\<open>Number(idx)\<close> on a string of decimal digits.\<close>

definition Number_digits :: "string \<Rightarrow> nat" where
  "Number_digits ds = foldl (\<lambda>a c. 10 * a + digit_val c) 0 ds"

text \<open>
  \<open>pathToTokens\<close>: the global scan of \<open>/\[(\d+)\]|([^[.\]]+)/g\<close> over the path.  At each
  position the bracketed index is tried first, then a maximal run of key characters; a
  character that starts neither is skipped.
\<close>

function pathToTokens :: "string \<Rightarrow> token list" where
  "pathToTokens [] = []"
| "pathToTokens (c # cs) =
     (if c = CHR ''['' then
        (let ds = takeWhile is_digit cs; r = dropWhile is_digit cs in
         if ds \<noteq> [] \<and> r \<noteq> [] \<and> hd r = CHR '']''
         then Idx (Number_digits ds) # pathToTokens (tl r)
         else pathToTokens cs)
      else if is_key_char c then
        Key (c # takeWhile is_key_char cs) # pathToTokens (dropWhile is_key_char cs)
      else pathToTokens cs)"
  by pat_completeness auto
termination
  apply (relation "measure length")
   apply (auto simp: less_Suc_eq_le length_dropWhile_le)
  apply (metis length_dropWhile_le diff_le_self order_trans)
  done

fun show_nat :: "nat \<Rightarrow> string" where
  "show_nat n =
     (if n < 10 then [char_of (48 + n)] else show_nat (n div 10) @ [char_of (48 + n mod 10)])"

definition show_int :: "int \<Rightarrow> string" where
  "show_int i = (if i < 0 then CHR ''-'' # show_nat (nat (- i)) else show_nat (nat i))"

text \<open>
  Property read \<open>cur[t]\<close> on a value that is neither \<open>null\<close> nor \<open>undefined\<close>.  A key made of
  the canonical decimal digits of a number reads the same slot as that number.
\<close>

definition index_of_key :: "string \<Rightarrow> nat option" where
  "index_of_key k =
     (if k \<noteq> [] \<and> list_all is_digit k \<and> show_nat (Number_digits k) = k
      then Some (Number_digits k) else None)"

fun get_prop :: "jsval \<Rightarrow> token \<Rightarrow> jsval" where
  "get_prop (JObj kvs) (Key k) = (case map_of kvs k of Some v \<Rightarrow> v | None \<Rightarrow> JUndefined)"
| "get_prop (JObj kvs) (Idx n) = (case map_of kvs (show_nat n) of Some v \<Rightarrow> v | None \<Rightarrow> JUndefined)"
| "get_prop (JArr xs) (Idx n) = (if n < length xs then xs ! n else JUndefined)"
| "get_prop (JArr xs) (Key k) =
     (if k = ''length'' then JNum (int (length xs))
      else case index_of_key k of
             Some n \<Rightarrow> (if n < length xs then xs ! n else JUndefined)
           | None \<Rightarrow> JUndefined)"
| "get_prop (JStr s) (Idx n) = (if n < length s then JStr [s ! n] else JUndefined)"
| "get_prop (JStr s) (Key k) =
     (if k = ''length'' then JNum (int (length s))
      else case index_of_key k of
             Some n \<Rightarrow> (if n < length s then JStr [s ! n] else JUndefined)
           | None \<Rightarrow> JUndefined)"
| "get_prop _ _ = JUndefined"

text \<open>
  The loop of \<open>getByPath\<close>.  \<open>None\<close> stands for "the default is returned": the walk met
  \<open>null\<close>/\<open>undefined\<close> before the last token, or ended on \<open>undefined\<close>.
\<close>

fun walk_path :: "jsval \<Rightarrow> token list \<Rightarrow> jsval option" where
  "walk_path cur [] = (if cur = JUndefined then None else Some cur)"
| "walk_path cur (t # ts) =
     (if cur = JNull \<or> cur = JUndefined then None else walk_path (get_prop cur t) ts)"

definition getByPath :: "jsval \<Rightarrow> string \<Rightarrow> jsval \<Rightarrow> jsval" where
  "getByPath obj path def = (case walk_path obj (pathToTokens path) of None \<Rightarrow> def | Some v \<Rightarrow> v)"


fun join_with :: "string \<Rightarrow> string list \<Rightarrow> string" where
  "join_with sep [] = []"
| "join_with sep [x] = x"
| "join_with sep (x # y # ys) = x @ sep @ join_with sep (y # ys)"

text \<open>\<open>String(v)\<close>.\<close>

fun js_String :: "jsval \<Rightarrow> string" where
  "js_String JUndefined = ''undefined''"
| "js_String JNull = ''null''"
| "js_String (JBool b) = (if b then ''true'' else ''false'')"
| "js_String (JNum i) = show_int i"
| "js_String (JStr s) = s"
| "js_String (JArr xs) =
     join_with '','' (map (\<lambda>x. if x = JNull \<or> x = JUndefined then [] else js_String x) xs)"
| "js_String (JObj kvs) = ''[object Object]''"

text \<open>
  One attempt of \<open>/\{\{\s*([\w.[\]0-9]+)\s*\}\}/\<close> at the start of a string: the captured
  path and what follows the match.  The three character classes and the brace are pairwise
  disjoint, so the greedy match is the only one.
\<close>

definition match_placeholder :: "string \<Rightarrow> (string \<times> string) option" where
  "match_placeholder s =
     (case s of
        a # b # r \<Rightarrow>
          if a = CHR ''{'' \<and> b = CHR ''{'' then
            (let r1 = dropWhile is_space r;
                 p = takeWhile is_path_char r1;
                 r3 = dropWhile is_space (dropWhile is_path_char r1)
             in if p \<noteq> [] then
                  (case r3 of
                     x # y # rest \<Rightarrow> if x = CHR ''}'' \<and> y = CHR ''}'' then Some (p, rest) else None
                   | _ \<Rightarrow> None)
                else None)
          else None
      | _ \<Rightarrow> None)"

text \<open>\<open>L.interpolate\<close>: every match is replaced, the text between matches is kept.\<close>

function interpolate :: "string \<Rightarrow> jsval \<Rightarrow> string" where
  "interpolate [] d = []"
| "interpolate (c # cs) d =
     (case match_placeholder (c # cs) of
        Some (p, rest) \<Rightarrow>
          (let v = getByPath d p JUndefined
           in (if v = JNull \<or> v = JUndefined then [] else js_String v)) @ interpolate rest d
      | None \<Rightarrow> c # interpolate cs d)"
  by pat_completeness auto
termination
proof (relation "measure (\<lambda>(s, d). length s)")
  show "wf (measure (\<lambda>(s, d). length s))" by simp
next
  fix c :: char and cs d x p rest
  assume m: "match_placeholder (c # cs) = Some x" and x: "(p, rest) = x"
  have "length rest < length (c # cs)"
  proof -
    from m x obtain r where s: "c # cs = CHR ''{'' # CHR ''{'' # r"
      and r3: "dropWhile is_space (dropWhile is_path_char (dropWhile is_space r))
               = CHR ''}'' # CHR ''}'' # rest"
      by (auto simp: match_placeholder_def Let_def split: list.splits if_splits)
    have "length (dropWhile is_space (dropWhile is_path_char (dropWhile is_space r))) \<le> length r"
      by (meson length_dropWhile_le order_trans)
    with r3 have "length rest < length r" by simp
    with s show ?thesis by (metis length_Cons less_Suc_eq)
  qed
  then show "((rest, d), (c # cs, d)) \<in> measure (\<lambda>(s, d). length s)" by simp
next
  fix c :: char and cs d
  show "((cs, d), (c # cs, d)) \<in> measure (\<lambda>(s, d). length s)" by simp
qed

text \<open>The error object \<open>L.assert\<close> throws: message, \<open>code\<close> and \<open>info\<close>.\<close>

datatype exn = Error (err_message: string) (err_code: string) (err_info: jsval)

definition js_falsy :: "jsval \<Rightarrow> bool" where
  "js_falsy v = (v = JUndefined \<or> v = JNull \<or> v = JBool False \<or> v = JNum 0 \<or> v = JStr [])"

definition is_object :: "jsval \<Rightarrow> bool" where
  "is_object v = (case v of JObj _ \<Rightarrow> True | JArr _ \<Rightarrow> True | _ \<Rightarrow> False)"

text \<open>
  The template \<open>L.assert\<close> resolves for a code: the table registered for the namespace
  before the first dot, then the global table, then the literal \<open>{{message}}\<close>.
\<close>

definition message_template ::
  "(string \<times> (string \<times> string) list) list \<Rightarrow> (string \<times> string) list \<Rightarrow> string \<Rightarrow> string" where
  "message_template errorsByNs errors code =
     (let tpl0 =
            (if code \<noteq> [] \<and> CHR ''.'' \<in> set code then
               (let ns = takeWhile (\<lambda>c. c \<noteq> CHR ''.'') code;
                    c = drop (length ns + 1) code
                in case map_of errorsByNs ns of
                     None \<Rightarrow> []
                   | Some tbl \<Rightarrow> (case map_of tbl c of None \<Rightarrow> [] | Some t \<Rightarrow> t))
             else [])
      in if tpl0 \<noteq> [] then tpl0
         else case map_of errors code of
                None \<Rightarrow> ''{{message}}''
              | Some t \<Rightarrow> if t \<noteq> [] then t else ''{{message}}'')"

text \<open>
  \<open>L.assert(cond, code, dataOrMessage)\<close> over the two message tables.  \<open>None\<close> is the
  normal return, \<open>Some e\<close> the throw.
\<close>

definition L_assert ::
  "(string \<times> (string \<times> string) list) list \<Rightarrow> (string \<times> string) list \<Rightarrow>
   bool \<Rightarrow> string \<Rightarrow> jsval \<Rightarrow> exn option" where
  "L_assert errorsByNs errors cond code dataOrMessage =
     (if cond then None
      else
        (let tpl = message_template errorsByNs errors code;
             data = (if is_object dataOrMessage then dataOrMessage
                     else JObj [(''message'',
                            JStr (if \<not> js_falsy dataOrMessage then js_String dataOrMessage
                                  else if code \<noteq> [] then code
                                  else ''Assertion failed''))]);
             msg = interpolate tpl data
         in Some (Error msg (if code \<noteq> [] then code else ''E_ASSERT_FAILED'') data)))"

text \<open>The global table \<open>L.errors\<close> and the table \<open>LightBase\<close> registers when it loads.\<close>

definition L_errors :: "(string \<times> string) list" where
  "L_errors =
     [(''E_INVALID_ID'', ''Invalid id \"{{id}}\"''),
      (''E_NO_ELEMENT'', ''No element found with id \"{{id}}\"''),
      (''E_INSTANCE_EXISTS'', ''Instance \"{{cls}}\" for #{{id}} already exists''),
      (''E_ALREADY_DESTRUCTED'', ''Instance \"{{cls}}\" for #{{id}} already destructed''),
      (''E_DESTRUCT_IN_PROGRESS'', ''Destruction already in progress for \"{{cls}}\" #{{id}}''),
      (''E_NO_ROOT'', ''Root element is required for \"{{cls}}\"''),
      (''E_ASSERT_FAILED'', ''Assertion failed: {{message}}'')]"

definition L_errorsByNs :: "(string \<times> (string \<times> string) list) list" where
  "L_errorsByNs =
     [(''LightBase'',
       [(''CONFLICT_OWNER'', ''Element #{{id}} is already owned by \"{{owner}}\"''),
        (''INVALID_CONSTRUCTOR_ID'', ''Constructor requires a non-empty string id without \"#\"''),
        (''ALREADY_DESTRUCTED'', ''Instance \"{{cls}}\" for #{{id}} already destructed''),
        (''DESTRUCT_IN_PROGRESS'', ''Destruction already in progress for \"{{cls}}\" #{{id}}'')])]"

abbreviation LB_assert :: "bool \<Rightarrow> string \<Rightarrow> jsval \<Rightarrow> exn option" where
  "LB_assert \<equiv> L_assert L_errorsByNs L_errors"


section \<open>The tooltip placement engine (LightTip)\<close>

datatype side = SideTop | SideBottom | SideLeft | SideRight

datatype align = AlignStart | AlignCenter | AlignEnd

record placement =
  side :: side
  align :: align
  auto :: bool

text \<open>The anchor's bounding rectangle, the measured tip size, a position, the viewport.\<close>

record rect =
  r_left :: real
  r_top :: real
  r_right :: real
  r_bottom :: real
  r_width :: real
  r_height :: real

record tip_size =
  s_width :: real
  s_height :: real

record position =
  p_left :: int
  p_top :: int

record viewport =
  vp_width :: real
  vp_height :: real

text \<open>\<open>offset|0\<close>: truncation towards zero, then wrap-around into 32 signed bits.\<close>

definition to_int32 :: "real \<Rightarrow> int" where
  "to_int32 x =
     (let t = (if 0 \<le> x then \<lfloor>x\<rfloor> else \<lceil>x\<rceil>);
          m = t mod 2 ^ 32
      in if 2 ^ 31 \<le> m then m - 2 ^ 32 else m)"

text \<open>\<open>Math.round\<close> rounds a half up.\<close>

definition Math_round :: "real \<Rightarrow> int" where
  "Math_round x = \<lfloor>x + 1 / 2\<rfloor>"

definition computePosition :: "rect \<Rightarrow> tip_size \<Rightarrow> placement \<Rightarrow> real \<Rightarrow> position" where
  "computePosition anchorRect tipSize pl offset =
     (let off = real_of_int (to_int32 offset);
          vertical =
            (if align pl = AlignStart then r_top anchorRect
             else if align pl = AlignEnd then r_bottom anchorRect - s_height tipSize
             else r_top anchorRect + (r_height anchorRect - s_height tipSize) / 2);
          horizontal =
            (if align pl = AlignStart then r_left anchorRect
             else if align pl = AlignEnd then r_right anchorRect - s_width tipSize
             else r_left anchorRect + (r_width anchorRect - s_width tipSize) / 2);
          lt =
            (if side pl = SideRight then (r_right anchorRect + off, vertical)
             else if side pl = SideLeft then (r_left anchorRect - s_width tipSize - off, vertical)
             else if side pl = SideTop then (horizontal, r_top anchorRect - s_height tipSize - off)
             else (horizontal, r_bottom anchorRect + off))
      in \<lparr>p_left = Math_round (fst lt), p_top = Math_round (snd lt)\<rparr>)"

definition fitsViewport :: "viewport \<Rightarrow> position \<Rightarrow> tip_size \<Rightarrow> real \<Rightarrow> bool" where
  "fitsViewport vp pos tipSize margin =
     (margin \<le> real_of_int (p_left pos) \<and>
      margin \<le> real_of_int (p_top pos) \<and>
      real_of_int (p_left pos) + s_width tipSize \<le> vp_width vp - margin \<and>
      real_of_int (p_top pos) + s_height tipSize \<le> vp_height vp - margin)"

fun oppositeSide :: "side \<Rightarrow> side" where
  "oppositeSide SideTop = SideBottom"
| "oppositeSide SideBottom = SideTop"
| "oppositeSide SideLeft = SideRight"
| "oppositeSide SideRight = SideLeft"

definition fallbackPlacements :: "placement \<Rightarrow> placement list" where
  "fallbackPlacements preferred =
     (let aligns = [AlignStart, AlignCenter, AlignEnd];
          others = map (\<lambda>a. \<lparr>side = side preferred, align = a, auto = True\<rparr>)
                       (filter (\<lambda>a. a \<noteq> align preferred) aligns);
          opp = [\<lparr>side = oppositeSide (side preferred), align = align preferred, auto = True\<rparr>];
          perpendicular =
            (if side preferred = SideTop \<or> side preferred = SideBottom
             then [\<lparr>side = SideLeft, align = AlignCenter, auto = True\<rparr>,
                   \<lparr>side = SideRight, align = AlignCenter, auto = True\<rparr>]
             else [\<lparr>side = SideTop, align = AlignCenter, auto = True\<rparr>,
                   \<lparr>side = SideBottom, align = AlignCenter, auto = True\<rparr>])
      in preferred # others @ opp @ perpendicular)"

text \<open>
  The loop of \<open>_positionWithArrow\<close>: the candidates in order, leaving at the first one that
  fits; the pair (chosen, pos) keeps its value from before the loop when none does.
\<close>

fun first_fit ::
  "viewport \<Rightarrow> rect \<Rightarrow> tip_size \<Rightarrow> real \<Rightarrow> placement list \<Rightarrow>
   placement \<times> position \<Rightarrow> placement \<times> position" where
  "first_fit vp anchorRect tsize offset [] chosen = chosen"
| "first_fit vp anchorRect tsize offset (p # ps) chosen =
     (let testPos = computePosition anchorRect tsize p offset
      in if fitsViewport vp testPos tsize 4 then (p, testPos)
         else first_fit vp anchorRect tsize offset ps chosen)"

text \<open>
  \<open>_positionWithArrow\<close>, up to the placement and position it applies to the tip.  The
  measured size, the parsed preferred placement and the offset option are arguments.
\<close>

definition positionWithArrow ::
  "viewport \<Rightarrow> rect \<Rightarrow> tip_size \<Rightarrow> placement \<Rightarrow> real \<Rightarrow> placement \<times> position" where
  "positionWithArrow vp anchorRect tsize pref offset =
     (let chosen = pref;
          pos = computePosition anchorRect tsize chosen offset
      in if auto pref
         then first_fit vp anchorRect tsize offset (fallbackPlacements pref) (chosen, pos)
         else (chosen, pos))"


section \<open>The document\<close>

text \<open>
  The elements of the page, numbered in document order; element \<open>0\<close> is the document
  element.  An element carries its \<open>id\<close> attribute (empty when it has none), its
  \<open>data-light-name\<close> attribute (\<open>None\<close> when absent) and its parent.  The operations below
  never create or move an element, so the numbering stays a document order of every
  subtree, attached or detached.  A parent precedes its children in document order;
  \<open>parent_of\<close> follows the parent link in that direction only.
\<close>

record element =
  el_id :: string
  light_name :: "string option"
  parentElement :: "nat option"

definition parent_of :: "element list \<Rightarrow> nat \<Rightarrow> nat option" where
  "parent_of d el =
     (if el < length d then
        (case parentElement (d ! el) of
           None \<Rightarrow> None
         | Some p \<Rightarrow> if p < el then Some p else None)
      else None)"

function ancestors :: "element list \<Rightarrow> nat \<Rightarrow> nat list" where
  "ancestors d el = (case parent_of d el of None \<Rightarrow> [] | Some p \<Rightarrow> p # ancestors d p)"
  by pat_completeness auto
termination
  by (relation "measure snd") (auto simp: parent_of_def split: option.splits if_splits)

definition in_document :: "element list \<Rightarrow> nat \<Rightarrow> bool" where
  "in_document d el = (el < length d \<and> (el = 0 \<or> 0 \<in> set (ancestors d el)))"

definition getElementById :: "element list \<Rightarrow> string \<Rightarrow> nat option" where
  "getElementById d i =
     (if i = [] then None
      else find (\<lambda>el. el_id (d ! el) = i \<and> in_document d el) [0..<length d])"

definition setAttribute_light_name :: "nat \<Rightarrow> string \<Rightarrow> element list \<Rightarrow> element list" where
  "setAttribute_light_name el v d = d[el := (d ! el)\<lparr>light_name := Some v\<rparr>]"

definition removeAttribute_light_name :: "nat \<Rightarrow> element list \<Rightarrow> element list" where
  "removeAttribute_light_name el d = d[el := (d ! el)\<lparr>light_name := None\<rparr>]"

text \<open>\<open>L.dom.clear\<close>: every child of the element is removed from it.\<close>

definition dom_clear :: "nat \<Rightarrow> element list \<Rightarrow> element list" where
  "dom_clear el d =
     map (\<lambda>e. if parentElement e = Some el then e\<lparr>parentElement := None\<rparr> else e) d"

text \<open>\<open>L(root).find('[data-light-name]')\<close>: the descendants that carry the attribute.\<close>

definition find_marked :: "element list \<Rightarrow> nat \<Rightarrow> nat list" where
  "find_marked d rt =
     filter (\<lambda>el. light_name (d ! el) \<noteq> None \<and> rt \<in> set (ancestors d el)) [0..<length d]"

text \<open>The local function \<open>depth\<close> of \<open>_collectOwnedDescendantsDeepFirst\<close>.\<close>

function depth :: "element list \<Rightarrow> nat \<Rightarrow> nat \<Rightarrow> nat" where
  "depth d rt el =
     (if el = rt then 0
      else case parent_of d el of None \<Rightarrow> 1 | Some p \<Rightarrow> Suc (depth d rt p))"
  by pat_completeness auto
termination
  by (relation "measure (\<lambda>(d, rt, el). el)")
     (auto simp: parent_of_def split: option.splits if_splits)

section \<open>Component instances, the registry and the host\<close>

text \<open>
  A listener record as \<open>addEvent\<close> builds it.  Targets and handler functions are known by
  their identity only.
\<close>

record listener =
  l_target :: nat
  l_type :: string
  l_selector :: "string option"
  l_handler :: nat
  l_opts :: jsval

text \<open>
  A disposer callback and an abort controller: an identity, and the exception calling it
  throws, if it throws.  What else such a callback does is outside the component base.
\<close>

record disposer =
  d_fn :: nat
  d_throws :: "exn option"

record abortc =
  ac_ref :: nat
  ac_throws :: "exn option"

record component =
  inst_id :: string
  root :: nat
  className :: string
  version :: string
  inst_locale :: string
  isDestructing :: bool
  isDestructed :: bool
  listeners :: "listener list"
  disposers :: "disposer list"
  timeouts :: "nat list"
  intervals :: "nat list"
  rafs :: "nat list"
  aborts :: "abortc list"

datatype level = danger | warning | info

fun LEVELS :: "level \<Rightarrow> nat" where
  "LEVELS danger = 1"
| "LEVELS warning = 2"
| "LEVELS info = 3"

text \<open>
  What an instance does to its surroundings, in order: the calls it makes to the event bus,
  the observers, the host timers, the callbacks it was given and the console, and the
  moment its own destruction begins.
\<close>

datatype call =
    DestructBegin
  | L_on nat string "string option" nat jsval
  | L_off nat string "string option" nat
  | L_observe string nat nat
  | Dispose nat
  | SetTimeout nat
  | ClearTimeout nat
  | SetInterval nat
  | ClearInterval nat
  | RequestFrame nat
  | CancelFrame nat
  | Abort abortc
  | Console level string "exn option"

text \<open>
  The world: the document, the registry \<open>t_lightinstances\<close> (kind, then id, then instance),
  the instances by reference, the next handle the host hands out, the logger's level, the
  global \<open>LNG\<close> and the \<open>LNG\<close> entry of \<open>L.env\<close>, and the calls made so far, each with the
  instance that made it.
\<close>

record world =
  dom :: "element list"
  REG :: "(string \<times> (string \<times> nat) list) list"
  heap :: "component list"
  next_handle :: nat
  log_level :: nat
  LNG :: jsval
  env_LNG :: string
  calls :: "(nat \<times> call) list"

text \<open>A class: its \<open>name\<close> and its static \<open>version\<close> (empty when it has none).\<close>

record klass =
  k_name :: string
  k_version :: string

definition getClassName :: "klass \<Rightarrow> string" where
  "getClassName cls = (if k_name cls \<noteq> [] then k_name cls else ''UnnamedClass'')"

definition ensureClassBucket :: "string \<Rightarrow> world \<Rightarrow> world" where
  "ensureClassBucket cname w =
     (case map_of (REG w) cname of
        None \<Rightarrow> w\<lparr>REG := REG w @ [(cname, [])]\<rparr>
      | Some b \<Rightarrow> w)"

text \<open>\<open>REG[kind] && REG[kind][id]\<close>.\<close>

definition reg_lookup :: "world \<Rightarrow> string \<Rightarrow> string \<Rightarrow> nat option" where
  "reg_lookup w cname i = (case map_of (REG w) cname of None \<Rightarrow> None | Some b \<Rightarrow> map_of b i)"

definition bucket_set :: "string \<Rightarrow> string \<Rightarrow> nat \<Rightarrow> world \<Rightarrow> world" where
  "bucket_set cname i this w =
     w\<lparr>REG := map (\<lambda>(k, b). if k = cname then (k, AList.update i this b) else (k, b)) (REG w)\<rparr>"

definition bucket_delete :: "string \<Rightarrow> string \<Rightarrow> world \<Rightarrow> world" where
  "bucket_delete cname i w =
     w\<lparr>REG := map (\<lambda>(k, b). if k = cname then (k, AList.delete i b) else (k, b)) (REG w)\<rparr>"

definition enabled :: "world \<Rightarrow> level \<Rightarrow> bool" where
  "enabled w lvl = (LEVELS lvl \<le> log_level w \<and> log_level w \<noteq> 0)"

definition record_call :: "nat \<Rightarrow> call \<Rightarrow> world \<Rightarrow> world" where
  "record_call this c w = w\<lparr>calls := calls w @ [(this, c)]\<rparr>"

text \<open>\<open>L.log.info\<close>, \<open>L.log.danger\<close>: a line reaches the console when its level is enabled.\<close>

definition L_log :: "nat \<Rightarrow> level \<Rightarrow> string \<Rightarrow> exn option \<Rightarrow> world \<Rightarrow> world" where
  "L_log this lvl msg e w = (if enabled w lvl then record_call this (Console lvl msg e) w else w)"

definition upd_inst :: "nat \<Rightarrow> (component \<Rightarrow> component) \<Rightarrow> world \<Rightarrow> world" where
  "upd_inst this f w = w\<lparr>heap := (heap w)[this := f (heap w ! this)]\<rparr>"

definition Active :: "world \<Rightarrow> nat \<Rightarrow> bool" where
  "Active w this = (\<not> isDestructing (heap w ! this) \<and> \<not> isDestructed (heap w ! this))"

subsection \<open>The constructor\<close>

definition ctx_id_cls :: "string \<Rightarrow> string \<Rightarrow> jsval" where
  "ctx_id_cls i cls = JObj [(''id'', JStr i), (''cls'', JStr cls)]"

text \<open>
  \<open>new C(id)\<close> for a class \<open>C\<close> that extends the base: the world afterwards, and the
  exception thrown or the new instance.
\<close>

definition construct :: "world \<Rightarrow> klass \<Rightarrow> string \<Rightarrow> world \<times> (exn + nat)" where
  "construct w k i =
     (let cls = getClassName k in
      case LB_assert (i \<noteq> [] \<and> CHR ''#'' \<notin> set i)
             ''LightBase.INVALID_CONSTRUCTOR_ID'' (ctx_id_cls i cls) of
        Some e \<Rightarrow> (w, Inl e)
      | None \<Rightarrow>
     (let w1 = ensureClassBucket cls w in
      case LB_assert (reg_lookup w1 cls i = None) ''E_INSTANCE_EXISTS'' (ctx_id_cls i cls) of
        Some e \<Rightarrow> (w1, Inl e)
      | None \<Rightarrow>
     (let elo = getElementById (dom w1) i in
      case LB_assert (elo \<noteq> None) ''E_NO_ELEMENT'' (ctx_id_cls i cls) of
        Some e \<Rightarrow> (w1, Inl e)
      | None \<Rightarrow>
     (let el = the elo;
          owner = light_name (dom w1 ! el) in
      case LB_assert (owner = None \<or> owner = Some [] \<or> owner = Some cls)
             ''LightBase.CONFLICT_OWNER''
             (JObj [(''id'', JStr i),
                    (''owner'', case owner of None \<Rightarrow> JNull | Some ow \<Rightarrow> JStr ow)]) of
        Some e \<Rightarrow> (w1, Inl e)
      | None \<Rightarrow>
     (let w2 = w1\<lparr>dom := setAttribute_light_name el cls (dom w1)\<rparr>;
          this = length (heap w2);
          inst = \<lparr>inst_id = i, root = el, className = cls,
                  version = (if k_version k \<noteq> [] then k_version k else ''0.0.0''),
                  inst_locale = (if \<not> js_falsy (LNG w2) then js_String (LNG w2)
                            else if env_LNG w2 \<noteq> [] then env_LNG w2 else ''pl''),
                  isDestructing = False, isDestructed = False,
                  listeners = [], disposers = [], timeouts = [], intervals = [],
                  rafs = [], aborts = []\<rparr>;
          w3 = bucket_set cls i this (w2\<lparr>heap := heap w2 @ [inst]\<rparr>);
          w4 = L_log this info
                 (''['' @ cls @ ''#'' @ i @ ''] init v'' @ version inst @ '' locale='' @ inst_locale inst)
                 None w3
      in (w4, Inr this))))))"

subsection \<open>Acquiring resources\<close>

text \<open>
  The target of \<open>addEvent\<close>: a selector string, an object, or a falsy value.  The remaining
  arguments: a handler with options, or a selector, a handler and options.
\<close>

datatype ev_target = Selector string | Node nat | NoTarget

datatype ev_args = Direct nat jsval | Delegated "string option" nat jsval

text \<open>What \<open>addEvent\<close> returns: the empty function, or the function removing one record.\<close>

datatype ev_disposer = Noop | RemoveEvent listener

text \<open>\<open>_removeEvent(rec)\<close>: a call of \<open>L.off\<close>, with the selector when it is truthy.\<close>

definition removeEvent :: "nat \<Rightarrow> listener \<Rightarrow> world \<Rightarrow> world" where
  "removeEvent this r w =
     record_call this
       (L_off (l_target r) (l_type r)
          (if l_selector r \<noteq> None \<and> l_selector r \<noteq> Some [] then l_selector r else None)
          (l_handler r)) w"

text \<open>
  \<open>addEvent\<close>; \<open>querySelector\<close> is \<open>document.querySelector\<close> of the host.  A selector that
  is not a string reaches \<open>L.on\<close> as it is.
\<close>

definition addEvent ::
  "(string \<Rightarrow> nat option) \<Rightarrow> world \<Rightarrow> nat \<Rightarrow> ev_target \<Rightarrow> string \<Rightarrow> ev_args \<Rightarrow>
   world \<times> ev_disposer" where
  "addEvent querySelector w this target type args =
     (let t = (case target of
                 Selector s \<Rightarrow> querySelector s
               | Node n \<Rightarrow> Some n
               | NoTarget \<Rightarrow> None)
      in case t of
           None \<Rightarrow> (w, Noop)
         | Some tg \<Rightarrow>
             (let r = (case args of
                         Direct h opts \<Rightarrow>
                           \<lparr>l_target = tg, l_type = type, l_selector = None, l_handler = h,
                            l_opts = (if js_falsy opts then JBool False else opts)\<rparr>
                       | Delegated sel h opts \<Rightarrow>
                           \<lparr>l_target = tg, l_type = type, l_selector = sel, l_handler = h,
                            l_opts = (if js_falsy opts then JBool False else opts)\<rparr>);
                  w1 = record_call this
                         (L_on (l_target r) (l_type r) (l_selector r) (l_handler r) (l_opts r)) w;
                  w2 = upd_inst this (\<lambda>i. i\<lparr>listeners := listeners i @ [r]\<rparr>) w1
              in (w2, RemoveEvent r)))"

text \<open>\<open>addDisposer(fn)\<close>; \<open>None\<close> is an argument that is not a function.\<close>

definition addDisposer :: "world \<Rightarrow> nat \<Rightarrow> disposer option \<Rightarrow> world" where
  "addDisposer w this fn =
     (case fn of
        Some f \<Rightarrow> upd_inst this (\<lambda>i. i\<lparr>disposers := disposers i @ [f]\<rparr>) w
      | None \<Rightarrow> w)"

text \<open>
  \<open>observeResize\<close>, \<open>observeIntersection\<close>, \<open>observeMutation\<close>: the observer of \<open>L.observe\<close>
  is created and its disposer, a new function that disconnects it, is added.
\<close>

definition observe :: "string \<Rightarrow> world \<Rightarrow> nat \<Rightarrow> nat \<Rightarrow> nat \<Rightarrow> world \<times> disposer" where
  "observe kind w this el handler =
     (let dispose = \<lparr>d_fn = next_handle w, d_throws = None\<rparr>;
          w1 = record_call this (L_observe kind el handler) (w\<lparr>next_handle := Suc (next_handle w)\<rparr>)
      in (addDisposer w1 this (Some dispose), dispose))"

definition observeResize :: "world \<Rightarrow> nat \<Rightarrow> nat \<Rightarrow> nat \<Rightarrow> world \<times> disposer" where
  "observeResize = observe ''resize''"

definition observeIntersection :: "world \<Rightarrow> nat \<Rightarrow> nat \<Rightarrow> nat \<Rightarrow> world \<times> disposer" where
  "observeIntersection = observe ''intersection''"

definition observeMutation :: "world \<Rightarrow> nat \<Rightarrow> nat \<Rightarrow> nat \<Rightarrow> world \<times> disposer" where
  "observeMutation = observe ''mutation''"

text \<open>A JavaScript \<open>Set\<close> of handles, in insertion order.\<close>

definition Set_add :: "'a \<Rightarrow> 'a list \<Rightarrow> 'a list" where
  "Set_add x xs = (if x \<in> set xs then xs else xs @ [x])"

definition Set_delete :: "'a \<Rightarrow> 'a list \<Rightarrow> 'a list" where
  "Set_delete x xs = removeAll x xs"

definition setT :: "world \<Rightarrow> nat \<Rightarrow> world \<times> nat" where
  "setT w this =
     (let h = next_handle w;
          w1 = record_call this (SetTimeout h) (w\<lparr>next_handle := Suc h\<rparr>)
      in (upd_inst this (\<lambda>i. i\<lparr>timeouts := Set_add h (timeouts i)\<rparr>) w1, h))"

definition clearT :: "world \<Rightarrow> nat \<Rightarrow> nat \<Rightarrow> world" where
  "clearT w this h =
     upd_inst this (\<lambda>i. i\<lparr>timeouts := Set_delete h (timeouts i)\<rparr>)
       (record_call this (ClearTimeout h) w)"

definition setI :: "world \<Rightarrow> nat \<Rightarrow> world \<times> nat" where
  "setI w this =
     (let h = next_handle w;
          w1 = record_call this (SetInterval h) (w\<lparr>next_handle := Suc h\<rparr>)
      in (upd_inst this (\<lambda>i. i\<lparr>intervals := Set_add h (intervals i)\<rparr>) w1, h))"

definition clearI :: "world \<Rightarrow> nat \<Rightarrow> nat \<Rightarrow> world" where
  "clearI w this h =
     upd_inst this (\<lambda>i. i\<lparr>intervals := Set_delete h (intervals i)\<rparr>)
       (record_call this (ClearInterval h) w)"

definition requestFrame :: "world \<Rightarrow> nat \<Rightarrow> world \<times> nat" where
  "requestFrame w this =
     (let h = next_handle w;
          w1 = record_call this (RequestFrame h) (w\<lparr>next_handle := Suc h\<rparr>)
      in (upd_inst this (\<lambda>i. i\<lparr>rafs := Set_add h (rafs i)\<rparr>) w1, h))"

definition cancelFrame :: "world \<Rightarrow> nat \<Rightarrow> nat \<Rightarrow> world" where
  "cancelFrame w this h =
     upd_inst this (\<lambda>i. i\<lparr>rafs := Set_delete h (rafs i)\<rparr>)
       (record_call this (CancelFrame h) w)"

text \<open>\<open>addAbortController(ac)\<close>; \<open>None\<close> is an argument without an \<open>abort\<close> function.\<close>

definition addAbortController :: "world \<Rightarrow> nat \<Rightarrow> abortc option \<Rightarrow> world" where
  "addAbortController w this ac =
     (case ac of
        Some a \<Rightarrow> upd_inst this (\<lambda>i. i\<lparr>aborts := Set_add a (aborts i)\<rparr>) w
      | None \<Rightarrow> w)"

subsection \<open>Destruction\<close>

definition collectOwnedDescendantsDeepFirst :: "world \<Rightarrow> nat \<Rightarrow> nat list" where
  "collectOwnedDescendantsDeepFirst w this =
     (let rt = root (heap w ! this);
          nodes = find_marked (dom w) rt
      in sort_key (\<lambda>el. - int (depth (dom w) rt el)) nodes)"

text \<open>
  Step 1 of \<open>destruct\<close>, the loop over the collected elements.  \<open>child_destruct\<close> is what
  \<open>inst.destruct()\<close> runs for the instance found in the registry: the world it leaves and
  the exception it throws, if any (\<open>None\<close> when it does not return).
\<close>

fun cascade ::
  "(world \<Rightarrow> nat \<Rightarrow> (world \<times> exn option) option) \<Rightarrow> nat \<Rightarrow> nat list \<Rightarrow> world \<Rightarrow>
   world option" where
  "cascade child_destruct this [] w = Some w"
| "cascade child_destruct this (el # els) w =
     (let cname = light_name (dom w ! el);
          cid = el_id (dom w ! el)
      in if cname = None \<or> cname = Some [] \<or> cid = [] then cascade child_destruct this els w
         else
           (case reg_lookup w (the cname) cid of
              None \<Rightarrow> cascade child_destruct this els w
            | Some inst \<Rightarrow>
                if Active w inst then
                  (case child_destruct w inst of
                     None \<Rightarrow> None
                   | Some (w', None) \<Rightarrow> cascade child_destruct this els w'
                   | Some (w', Some e) \<Rightarrow>
                       cascade child_destruct this els
                         (L_log this danger ''child destruct error'' (Some e) w'))
                else cascade child_destruct this els w))"

text \<open>The calls \<open>d()\<close> and \<open>ac.abort()\<close>: the call is made, and it returns or throws.\<close>

definition invoke_disposer :: "nat \<Rightarrow> disposer \<Rightarrow> world \<Rightarrow> world \<times> exn option" where
  "invoke_disposer this d w = (record_call this (Dispose (d_fn d)) w, d_throws d)"

definition invoke_abort :: "nat \<Rightarrow> abortc \<Rightarrow> world \<Rightarrow> world \<times> exn option" where
  "invoke_abort this a w = (record_call this (Abort a) w, ac_throws a)"

text \<open>\<open>try { ... } catch(_) {}\<close>: the exception, if any, is dropped.\<close>

definition try_catch_ignore :: "world \<times> exn option \<Rightarrow> world" where
  "try_catch_ignore r = (case r of (w, None) \<Rightarrow> w | (w, Some e) \<Rightarrow> w)"

text \<open>Step 2, resource by resource.\<close>

definition cleanup_listeners :: "nat \<Rightarrow> world \<Rightarrow> world" where
  "cleanup_listeners this w =
     upd_inst this (\<lambda>i. i\<lparr>listeners := []\<rparr>)
       (fold (removeEvent this) (listeners (heap w ! this)) w)"

definition cleanup_disposers :: "nat \<Rightarrow> world \<Rightarrow> world" where
  "cleanup_disposers this w =
     upd_inst this (\<lambda>i. i\<lparr>disposers := []\<rparr>)
       (fold (\<lambda>d w'. try_catch_ignore (invoke_disposer this d w')) (disposers (heap w ! this)) w)"

definition cleanup_timeouts :: "nat \<Rightarrow> world \<Rightarrow> world" where
  "cleanup_timeouts this w =
     upd_inst this (\<lambda>i. i\<lparr>timeouts := []\<rparr>)
       (fold (\<lambda>h. record_call this (ClearTimeout h)) (timeouts (heap w ! this)) w)"

definition cleanup_intervals :: "nat \<Rightarrow> world \<Rightarrow> world" where
  "cleanup_intervals this w =
     upd_inst this (\<lambda>i. i\<lparr>intervals := []\<rparr>)
       (fold (\<lambda>h. record_call this (ClearInterval h)) (intervals (heap w ! this)) w)"

definition cleanup_rafs :: "nat \<Rightarrow> world \<Rightarrow> world" where
  "cleanup_rafs this w =
     upd_inst this (\<lambda>i. i\<lparr>rafs := []\<rparr>)
       (fold (\<lambda>h. record_call this (CancelFrame h)) (rafs (heap w ! this)) w)"

definition cleanup_aborts :: "nat \<Rightarrow> world \<Rightarrow> world" where
  "cleanup_aborts this w =
     upd_inst this (\<lambda>i. i\<lparr>aborts := []\<rparr>)
       (fold (\<lambda>a w'. try_catch_ignore (invoke_abort this a w')) (aborts (heap w ! this)) w)"

text \<open>Steps 2 to 5 and the closing log line.\<close>

definition cleanup :: "nat \<Rightarrow> world \<Rightarrow> world" where
  "cleanup this w =
     (let w1 = cleanup_listeners this w;
          w2 = cleanup_disposers this w1;
          w3 = cleanup_timeouts this w2;
          w4 = cleanup_intervals this w3;
          w5 = cleanup_rafs this w4;
          w6 = cleanup_aborts this w5;
          rt = root (heap w6 ! this);
          w7 = w6\<lparr>dom := dom_clear rt (dom w6)\<rparr>;
          w8 = w7\<lparr>dom := removeAttribute_light_name rt (dom w7)\<rparr>;
          cls = className (heap w8 ! this);
          i = inst_id (heap w8 ! this);
          w9 = (if reg_lookup w8 cls i = Some this then bucket_delete cls i w8 else w8)
      in L_log this info (''destructed v'' @ version (heap w9 ! this)) None w9)"

text \<open>The \<open>finally\<close> block.\<close>

definition finalizer :: "nat \<Rightarrow> world \<Rightarrow> world" where
  "finalizer this w = upd_inst this (\<lambda>i. i\<lparr>isDestructing := False, isDestructed := True\<rparr>) w"

text \<open>
  \<open>destruct()\<close> on the instance \<open>this\<close>, given what the \<open>destruct()\<close> of the children does.
\<close>

definition destruct_with ::
  "(world \<Rightarrow> nat \<Rightarrow> (world \<times> exn option) option) \<Rightarrow> world \<Rightarrow> nat \<Rightarrow>
   (world \<times> exn option) option" where
  "destruct_with child_destruct w0 this =
     (let cls = className (heap w0 ! this);
          i = inst_id (heap w0 ! this);
          w = ensureClassBucket cls w0
      in if isDestructed (heap w ! this) then
           Some (w, LB_assert False ''LightBase.ALREADY_DESTRUCTED''
                      (JObj [(''cls'', JStr cls), (''id'', JStr i)]))
         else if isDestructing (heap w ! this) then
           Some (w, LB_assert False ''LightBase.DESTRUCT_IN_PROGRESS''
                      (JObj [(''cls'', JStr cls), (''id'', JStr i)]))
         else
           (let w1 = record_call this DestructBegin
                       (upd_inst this (\<lambda>i. i\<lparr>isDestructing := True\<rparr>) w)
            in case cascade child_destruct this (collectOwnedDescendantsDeepFirst w1 this) w1 of
                 None \<Rightarrow> None
               | Some w2 \<Rightarrow> Some (finalizer this (cleanup this w2), None)))"

text \<open>
  \<open>destruct()\<close> of the base class, whose children run the same method.  The first argument
  bounds the depth of nested calls; \<open>None\<close> means the bound was reached.
\<close>

fun destruct :: "nat \<Rightarrow> world \<Rightarrow> nat \<Rightarrow> (world \<times> exn option) option" where
  "destruct 0 w this = None"
| "destruct (Suc n) w this = destruct_with (destruct n) w this"

section \<open>Notions used to state the properties\<close>

text \<open>A placement candidate fits: its computed box lies inside the viewport with the margin 4.\<close>

definition candidate_fits :: "viewport \<Rightarrow> rect \<Rightarrow> tip_size \<Rightarrow> real \<Rightarrow> placement \<Rightarrow> bool" where
  "candidate_fits vp anchorRect tsize offset p =
     fitsViewport vp (computePosition anchorRect tsize p offset) tsize 4"

text \<open>Calling the function \<open>addEvent\<close> returned.\<close>

definition run_ev_disposer :: "nat \<Rightarrow> ev_disposer \<Rightarrow> world \<Rightarrow> world" where
  "run_ev_disposer this d w = (case d of Noop \<Rightarrow> w | RemoveEvent r \<Rightarrow> removeEvent this r w)"

text \<open>
  A world is well formed when the registry holds references to existing instances and
  every instance is bound to an existing element.
\<close>

definition wf_world :: "world \<Rightarrow> bool" where
  "wf_world w =
     ((\<forall>c i r. reg_lookup w c i = Some r \<longrightarrow> r < length (heap w)) \<and>
      (\<forall>r < length (heap w). root (heap w ! r) < length (dom w)))"

text \<open>The tracked sets of an instance are sets: no handle is held twice.\<close>

definition Sets_ok :: "component \<Rightarrow> bool" where
  "Sets_ok i =
     (distinct (timeouts i) \<and> distinct (intervals i) \<and> distinct (rafs i) \<and> distinct (aborts i))"

text \<open>The instances that are \<open>Active\<close>.\<close>

definition Acts :: "world \<Rightarrow> nat set" where
  "Acts w = {r. r < length (heap w) \<and> Active w r}"

text \<open>
  \<open>frame T w w'\<close>: what a step from \<open>w\<close> to \<open>w'\<close> that acts for the instances in \<open>T\<close> only
  may change.  No instance or element appears or disappears; instances outside \<open>T\<close> are
  untouched; identities and bindings stay; no instance becomes \<open>Active\<close>; a registry entry
  can only be removed, and only when it holds an instance of \<open>T\<close> that is no longer
  \<open>Active\<close>; ids of elements stay, markers stay or are removed; calls are added, by
  members of \<open>T\<close>.
\<close>

definition frame :: "nat set \<Rightarrow> world \<Rightarrow> world \<Rightarrow> bool" where
  "frame T w w' =
     (length (heap w') = length (heap w) \<and> length (dom w') = length (dom w) \<and>
      log_level w' = log_level w \<and>
      (\<forall>r < length (heap w). r \<notin> T \<longrightarrow> heap w' ! r = heap w ! r) \<and>
      (\<forall>r < length (heap w).
         className (heap w' ! r) = className (heap w ! r) \<and>
         inst_id (heap w' ! r) = inst_id (heap w ! r) \<and>
         root (heap w' ! r) = root (heap w ! r)) \<and>
      (\<forall>r < length (heap w). Active w' r \<longrightarrow> Active w r) \<and>
      (\<forall>c i r. reg_lookup w c i = Some r \<longrightarrow>
         r \<notin> T \<or> (r < length (heap w) \<and> Active w' r) \<longrightarrow> reg_lookup w' c i = Some r) \<and>
      (\<forall>c i. reg_lookup w' c i = None \<or> reg_lookup w' c i = reg_lookup w c i) \<and>
      (\<forall>c. map_of (REG w) c \<noteq> None \<longrightarrow> map_of (REG w') c \<noteq> None) \<and>
      (\<forall>el < length (dom w).
         el_id (dom w' ! el) = el_id (dom w ! el) \<and>
         (light_name (dom w' ! el) = None \<or> light_name (dom w' ! el) = light_name (dom w ! el))) \<and>
      (\<exists>cs. calls w' = calls w @ cs \<and> fst ` set cs \<subseteq> T))"

text \<open>The call \<open>_removeEvent\<close> makes for a record, and the calls of a whole cleanup in order.\<close>

definition off_call :: "listener \<Rightarrow> call" where
  "off_call r =
     L_off (l_target r) (l_type r)
       (if l_selector r \<noteq> None \<and> l_selector r \<noteq> Some [] then l_selector r else None)
       (l_handler r)"

definition cleanup_calls :: "component \<Rightarrow> call list" where
  "cleanup_calls i =
     map off_call (listeners i) @ map (\<lambda>d. Dispose (d_fn d)) (disposers i) @
     map ClearTimeout (timeouts i) @ map ClearInterval (intervals i) @
     map CancelFrame (rafs i) @ map Abort (aborts i)"


text \<open>An instance with all its resource sets emptied.\<close>

definition cleared :: "component \<Rightarrow> component" where
  "cleared i = i\<lparr>listeners := [], disposers := [], timeouts := [],
                 intervals := [], rafs := [], aborts := []\<rparr>"

text \<open>The world when the guards of \<open>destruct\<close> have passed and the cascade starts.\<close>

definition begin_destruct :: "nat \<Rightarrow> world \<Rightarrow> world" where
  "begin_destruct t w =
     record_call t DestructBegin
       (upd_inst t (\<lambda>i. i\<lparr>isDestructing := True\<rparr>) (ensureClassBucket (className (heap w ! t)) w))"

text \<open>The instance whose \<open>destruct()\<close> the cascade calls for a collected element, if any.\<close>

definition cascade_target :: "world \<Rightarrow> nat \<Rightarrow> nat option" where
  "cascade_target w el =
     (let cname = light_name (dom w ! el); cid = el_id (dom w ! el)
      in if cname = None \<or> cname = Some [] \<or> cid = [] then None
         else case reg_lookup w (the cname) cid of
                None \<Rightarrow> None
              | Some inst \<Rightarrow> if Active w inst then Some inst else None)"

text \<open>The calls made between two worlds, and those among them made by one instance.\<close>

definition calls_during :: "world \<Rightarrow> world \<Rightarrow> (nat \<times> call) list" where
  "calls_during w w' = drop (length (calls w)) (calls w')"

definition own_calls :: "nat \<Rightarrow> world \<Rightarrow> world \<Rightarrow> call list" where
  "own_calls t w w' = map snd (filter (\<lambda>p. fst p = t) (calls_during w w'))"

subsection \<open>Example worlds\<close>

text \<open>
  A page with a panel \<open>#p\<close> that contains a tab \<open>#s\<close>, which contains a tab \<open>#d\<close>, and
  an unowned element \<open>#x\<close>; three live instances, the panel holding one resource of each
  kind, with a disposer and an abort controller that throw.
\<close>

definition demo_dom :: "element list" where
  "demo_dom =
     [\<lparr>el_id = [], light_name = None, parentElement = None\<rparr>,
      \<lparr>el_id = ''p'', light_name = Some ''Panel'', parentElement = Some 0\<rparr>,
      \<lparr>el_id = ''s'', light_name = Some ''Tab'', parentElement = Some 1\<rparr>,
      \<lparr>el_id = ''d'', light_name = Some ''Tab'', parentElement = Some 2\<rparr>,
      \<lparr>el_id = ''x'', light_name = None, parentElement = Some 1\<rparr>]"

definition bare :: "string \<Rightarrow> nat \<Rightarrow> string \<Rightarrow> component" where
  "bare i el cls =
     \<lparr>inst_id = i, root = el, className = cls, version = ''1.0.1'', inst_locale = ''pl'',
      isDestructing = False, isDestructed = False, listeners = [], disposers = [],
      timeouts = [], intervals = [], rafs = [], aborts = []\<rparr>"

definition demo_world :: world where
  "demo_world =
     \<lparr>dom = demo_dom,
      REG = [(''Panel'', [(''p'', 0)]), (''Tab'', [(''s'', 1), (''d'', 2)])],
      heap = [(bare ''p'' 1 ''Panel'')
                \<lparr>listeners := [\<lparr>l_target = 4, l_type = ''click'', l_selector = None,
                                 l_handler = 11, l_opts = JBool False\<rparr>],
                 disposers := [\<lparr>d_fn = 12, d_throws = Some (Error ''boom'' ''E_USER'' JNull)\<rparr>],
                 timeouts := [7], intervals := [8], rafs := [9],
                 aborts := [\<lparr>ac_ref = 13, ac_throws = Some (Error ''boom'' ''E_USER'' JNull)\<rparr>]\<rparr>,
              bare ''s'' 2 ''Tab'', bare ''d'' 3 ''Tab''],
      next_handle = 14, log_level = 3, LNG = JUndefined, env_LNG = [], calls = []\<rparr>"

text \<open>The example world with the panel in the middle of its destruction.\<close>

definition demo_destructing :: world where
  "demo_destructing = upd_inst 0 (\<lambda>i. i\<lparr>isDestructing := True\<rparr>) demo_world"

text \<open>The example world after \<open>destruct()\<close> of the panel.\<close>

definition demo_after :: world where
  "demo_after =
     \<lparr>dom =
        [\<lparr>el_id = [], light_name = None, parentElement = None\<rparr>,
         \<lparr>el_id = ''p'', light_name = None, parentElement = Some 0\<rparr>,
         \<lparr>el_id = ''s'', light_name = None, parentElement = None\<rparr>,
         \<lparr>el_id = ''d'', light_name = None, parentElement = None\<rparr>,
         \<lparr>el_id = ''x'', light_name = None, parentElement = None\<rparr>],
      REG = [(''Panel'', []), (''Tab'', [])],
      heap = [(bare ''p'' 1 ''Panel'')\<lparr>isDestructed := True\<rparr>,
              (bare ''s'' 2 ''Tab'')\<lparr>isDestructed := True\<rparr>,
              (bare ''d'' 3 ''Tab'')\<lparr>isDestructed := True\<rparr>],
      next_handle = 14, log_level = 3, LNG = JUndefined, env_LNG = [],
      calls =
        [(0, DestructBegin), (2, DestructBegin),
         (2, Console info ''destructed v1.0.1'' None), (1, DestructBegin),
         (1, Console info ''destructed v1.0.1'' None),
         (0, L_off 4 ''click'' None 11), (0, Dispose 12),
         (0, ClearTimeout 7), (0, ClearInterval 8), (0, CancelFrame 9),
         (0, Abort \<lparr>ac_ref = 13, ac_throws = Some (Error ''boom'' ''E_USER'' JNull)\<rparr>),
         (0, Console info ''destructed v1.0.1'' None)]\<rparr>"

text \<open>A console line of the level \<open>danger\<close>.\<close>

definition is_danger_log :: "call \<Rightarrow> bool" where
  "is_danger_log c = (case c of Console l m e \<Rightarrow> l = danger | _ \<Rightarrow> False)"

text \<open>A child destructor that does nothing but throw.\<close>

definition throwing_child :: "world \<Rightarrow> nat \<Rightarrow> (world \<times> exn option) option" where
  "throwing_child w c = Some (w, Some (Error ''child failed'' ''E_CHILD'' JNull))"



text \<open>The world after \<open>destruct()\<close> of an instance whose cascade finds nothing.\<close>

definition leaf_done :: "nat \<Rightarrow> world \<Rightarrow> world" where
  "leaf_done c w = finalizer c (cleanup c (begin_destruct c w))"



definition Tab_class :: klass where
  "Tab_class = \<lparr>k_name = ''Tab'', k_version = ''1.0.1''\<rparr>"

definition Menu_class :: klass where
  "Menu_class = \<lparr>k_name = ''Menu'', k_version = ''1.0.1''\<rparr>"

text \<open>
  An example where nothing fits: a tip of 200 by 200 for an anchor in the middle of a
  viewport of 100 by 100, preferred above the anchor and centred.
\<close>

definition small_viewport :: viewport where
  "small_viewport = \<lparr>vp_width = 100, vp_height = 100\<rparr>"

definition mid_anchor :: rect where
  "mid_anchor = \<lparr>r_left = 40, r_top = 40, r_right = 60, r_bottom = 60, r_width = 20, r_height = 20\<rparr>"

definition big_tip :: tip_size where
  "big_tip = \<lparr>s_width = 200, s_height = 200\<rparr>"

definition auto_top_center :: placement where
  "auto_top_center = \<lparr>side = SideTop, align = AlignCenter, auto = True\<rparr>"

text \<open>
  An example where the fourth candidate is the first to fit: an anchor at the top edge of a
  viewport of 1000 by 800, a tip of 120 by 40.
\<close>

definition wide_viewport :: viewport where
  "wide_viewport = \<lparr>vp_width = 1000, vp_height = 800\<rparr>"

definition top_anchor :: rect where
  "top_anchor = \<lparr>r_left = 400, r_top = 10, r_right = 500, r_bottom = 30, r_width = 100, r_height = 20\<rparr>"

definition small_tip :: tip_size where
  "small_tip = \<lparr>s_width = 120, s_height = 40\<rparr>"

section \<open>Properties of message interpolation\<close>

declare interpolate.simps(2) [simp del]


















section \<open>The effect of the primitive steps\<close>

lemma record_call_simps [simp]:
  "dom (record_call t c w) = dom w" "REG (record_call t c w) = REG w"
  "heap (record_call t c w) = heap w" "log_level (record_call t c w) = log_level w"
  "calls (record_call t c w) = calls w @ [(t, c)]"
  "next_handle (record_call t c w) = next_handle w"
  by (simp_all add: record_call_def)

lemma enabled_cong [simp]: "enabled (record_call t c w) = enabled w"
  by (simp add: enabled_def fun_eq_iff)

lemma L_log_simps [simp]:
  "dom (L_log t l m e w) = dom w" "REG (L_log t l m e w) = REG w"
  "heap (L_log t l m e w) = heap w" "log_level (L_log t l m e w) = log_level w"
  "calls (L_log t l m e w) = calls w @ (if enabled w l then [(t, Console l m e)] else [])"
  "next_handle (L_log t l m e w) = next_handle w"
  by (simp_all add: L_log_def)

lemma upd_inst_simps [simp]:
  "dom (upd_inst t f w) = dom w" "REG (upd_inst t f w) = REG w"
  "heap (upd_inst t f w) = (heap w)[t := f (heap w ! t)]" "log_level (upd_inst t f w) = log_level w"
  "calls (upd_inst t f w) = calls w"
  "next_handle (upd_inst t f w) = next_handle w"
  by (simp_all add: upd_inst_def)

lemma reg_lookup_cong: "REG w = REG w' \<Longrightarrow> reg_lookup w = reg_lookup w'"
  by (simp add: reg_lookup_def fun_eq_iff)

lemma reg_lookup_prims [simp]:
  "reg_lookup (record_call t c w) = reg_lookup w"
  "reg_lookup (L_log t l m e w) = reg_lookup w"
  "reg_lookup (upd_inst t f w) = reg_lookup w"
  "reg_lookup (w\<lparr>dom := d\<rparr>) = reg_lookup w"
  by (rule reg_lookup_cong; simp)+

lemma ensureClassBucket_simps [simp]:
  "dom (ensureClassBucket c w) = dom w"
  "heap (ensureClassBucket c w) = heap w" "log_level (ensureClassBucket c w) = log_level w"
  "calls (ensureClassBucket c w) = calls w"
  by (simp_all add: ensureClassBucket_def split: option.splits)

lemma reg_lookup_ensure [simp]: "reg_lookup (ensureClassBucket c w) k i = reg_lookup w k i"
  by (auto simp: ensureClassBucket_def reg_lookup_def map_add_def split: option.splits if_splits)

lemma bucket_ensure: "(map_of (REG (ensureClassBucket c w)) k = None) = (k \<noteq> c \<and> map_of (REG w) k = None)"
  by (auto simp: ensureClassBucket_def map_add_def split: option.splits if_splits)

lemma ensure_idem: "map_of (REG w) c = Some b \<Longrightarrow> ensureClassBucket c w = w"
  by (auto simp: ensureClassBucket_def split: option.splits)

lemma map_of_map_bucket:
  "map_of (map (\<lambda>(k, b). if k = c then (k, f b) else (k, b)) xs) k
   = (if k = c then map_option f (map_of xs k) else map_of xs k)"
  by (induction xs) auto

lemma bucket_delete_simps [simp]:
  "dom (bucket_delete c i w) = dom w"
  "heap (bucket_delete c i w) = heap w" "log_level (bucket_delete c i w) = log_level w"
  "calls (bucket_delete c i w) = calls w"
  by (simp_all add: bucket_delete_def)

lemma reg_lookup_delete [simp]:
  "reg_lookup (bucket_delete c i w) k j = (if k = c \<and> j = i then None else reg_lookup w k j)"
  by (auto simp: bucket_delete_def reg_lookup_def map_of_map_bucket delete_conv' split: option.splits)

lemma bucket_delete_bucket [simp]: "(map_of (REG (bucket_delete c i w)) k = None) = (map_of (REG w) k = None)"
  by (auto simp: bucket_delete_def map_of_map_bucket)

lemma bucket_set_simps [simp]:
  "dom (bucket_set c i r w) = dom w"
  "heap (bucket_set c i r w) = heap w" "log_level (bucket_set c i r w) = log_level w"
  "calls (bucket_set c i r w) = calls w"
  by (simp_all add: bucket_set_def)

lemma reg_lookup_set [simp]:
  "reg_lookup (bucket_set c i r w) k j =
     (if k = c \<and> j = i \<and> map_of (REG w) c \<noteq> None then Some r else reg_lookup w k j)"
  by (auto simp: bucket_set_def reg_lookup_def map_of_map_bucket update_conv' split: option.splits)

lemma Active_prims [simp]:
  "Active (record_call t c w) = Active w"
  "Active (L_log t l m e w) = Active w"
  "Active (ensureClassBucket k w) = Active w"
  "Active (bucket_delete k i w) = Active w"
  "Active (w\<lparr>dom := d\<rparr>) = Active w"
  by (simp_all add: Active_def fun_eq_iff)

lemma fold_record_call:
  "fold (\<lambda>x. record_call t (f x)) xs w = w\<lparr>calls := calls w @ map (\<lambda>x. (t, f x)) xs\<rparr>"
  by (induction xs arbitrary: w) (simp_all add: record_call_def)

lemma removeEvent_eq: "removeEvent t = (\<lambda>r. record_call t (off_call r))"
  by (simp add: removeEvent_def off_call_def fun_eq_iff)

lemma cleanup_listeners_eq:
  "cleanup_listeners t w =
     upd_inst t (\<lambda>i. i\<lparr>listeners := []\<rparr>)
       (w\<lparr>calls := calls w @ map (\<lambda>r. (t, off_call r)) (listeners (heap w ! t))\<rparr>)"
  by (simp add: cleanup_listeners_def removeEvent_eq fold_record_call)

lemma caught_disposer:
  "(\<lambda>d w'. try_catch_ignore (invoke_disposer t d w')) = (\<lambda>d. record_call t (Dispose (d_fn d)))"
  by (auto simp: fun_eq_iff try_catch_ignore_def invoke_disposer_def split: option.splits)

lemma caught_abort:
  "(\<lambda>a w'. try_catch_ignore (invoke_abort t a w')) = (\<lambda>a. record_call t (Abort a))"
  by (auto simp: fun_eq_iff try_catch_ignore_def invoke_abort_def split: option.splits)

lemmas cleanup_steps_eq =
  cleanup_listeners_eq
  cleanup_disposers_def [unfolded caught_disposer fold_record_call]
  cleanup_timeouts_def [unfolded fold_record_call]
  cleanup_intervals_def [unfolded fold_record_call]
  cleanup_rafs_def [unfolded fold_record_call]
  cleanup_aborts_def [unfolded caught_abort fold_record_call]

lemma cleanup_resources_heap:
  assumes "t < length (heap w)"
  shows "heap (cleanup_aborts t (cleanup_rafs t (cleanup_intervals t (cleanup_timeouts t
           (cleanup_disposers t (cleanup_listeners t w))))))
         = (heap w)[t := (heap w ! t)\<lparr>listeners := [], disposers := [], timeouts := [],
                                       intervals := [], rafs := [], aborts := []\<rparr>]"
  using assms by (simp add: cleanup_steps_eq)

lemma cleanup_resources_calls:
  assumes "t < length (heap w)"
  shows "calls (cleanup_aborts t (cleanup_rafs t (cleanup_intervals t (cleanup_timeouts t
           (cleanup_disposers t (cleanup_listeners t w))))))
         = calls w @ map (Pair t) (cleanup_calls (heap w ! t))"
  using assms by (simp add: cleanup_steps_eq cleanup_calls_def comp_def)

lemma cleanup_resources_other [simp]:
  "dom (cleanup_listeners t w) = dom w" "REG (cleanup_listeners t w) = REG w"
  "log_level (cleanup_listeners t w) = log_level w"
  "dom (cleanup_disposers t w) = dom w" "REG (cleanup_disposers t w) = REG w"
  "log_level (cleanup_disposers t w) = log_level w"
  "dom (cleanup_timeouts t w) = dom w" "REG (cleanup_timeouts t w) = REG w"
  "log_level (cleanup_timeouts t w) = log_level w"
  "dom (cleanup_intervals t w) = dom w" "REG (cleanup_intervals t w) = REG w"
  "log_level (cleanup_intervals t w) = log_level w"
  "dom (cleanup_rafs t w) = dom w" "REG (cleanup_rafs t w) = REG w"
  "log_level (cleanup_rafs t w) = log_level w"
  "dom (cleanup_aborts t w) = dom w" "REG (cleanup_aborts t w) = REG w"
  "log_level (cleanup_aborts t w) = log_level w"
  by (simp_all add: cleanup_steps_eq)

lemma cleared_simps [simp]:
  "className (cleared i) = className i" "inst_id (cleared i) = inst_id i"
  "root (cleared i) = root i" "version (cleared i) = version i"
  "isDestructing (cleared i) = isDestructing i" "isDestructed (cleared i) = isDestructed i"
  "listeners (cleared i) = []" "disposers (cleared i) = []" "timeouts (cleared i) = []"
  "intervals (cleared i) = []" "rafs (cleared i) = []" "aborts (cleared i) = []"
  by (simp_all add: cleared_def)

lemma cleanup_heap:
  assumes "t < length (heap w)"
  shows "heap (cleanup t w) = (heap w)[t := cleared (heap w ! t)]"
  using assms
  by (simp add: cleanup_def Let_def cleanup_resources_heap cleared_def)

lemma cleanup_dom:
  assumes "t < length (heap w)"
  shows "dom (cleanup t w)
         = removeAttribute_light_name (root (heap w ! t)) (dom_clear (root (heap w ! t)) (dom w))"
  using assms
  by (simp add: cleanup_def Let_def cleanup_resources_heap)

lemma enabled_level: "log_level w' = log_level w \<Longrightarrow> enabled w' = enabled w"
  by (simp add: enabled_def fun_eq_iff)

lemma cleanup_calls_eq:
  assumes "t < length (heap w)"
  shows "calls (cleanup t w)
         = calls w @ map (Pair t) (cleanup_calls (heap w ! t)) @
           (if enabled w info
            then [(t, Console info (''destructed v'' @ version (heap w ! t)) None)] else [])"
proof -
  let ?w6 = "cleanup_aborts t (cleanup_rafs t (cleanup_intervals t (cleanup_timeouts t
           (cleanup_disposers t (cleanup_listeners t w)))))"
  have e: "enabled ?w6 = enabled w" by (rule enabled_level) simp
  have h: "heap ?w6 ! t = cleared (heap w ! t)"
    using assms by (simp add: cleanup_resources_heap cleared_def)
  show ?thesis
    using assms
    by (simp add: cleanup_def Let_def cleanup_resources_calls h e enabled_def)
qed

lemma cleanup_level [simp]: "log_level (cleanup t w) = log_level w"
  by (simp add: cleanup_def Let_def)

lemma cleanup_reg:
  assumes "t < length (heap w)"
  shows "reg_lookup (cleanup t w) k j
         = (if reg_lookup w (className (heap w ! t)) (inst_id (heap w ! t)) = Some t
               \<and> k = className (heap w ! t) \<and> j = inst_id (heap w ! t)
            then None else reg_lookup w k j)"
proof -
  let ?w6 = "cleanup_aborts t (cleanup_rafs t (cleanup_intervals t (cleanup_timeouts t
           (cleanup_disposers t (cleanup_listeners t w)))))"
  have h: "heap ?w6 ! t = cleared (heap w ! t)"
    using assms by (simp add: cleanup_resources_heap cleared_def)
  have r: "reg_lookup ?w6 = reg_lookup w" by (rule reg_lookup_cong) simp
  show ?thesis
    by (simp add: cleanup_def Let_def h r)
qed

lemma cleanup_buckets [simp]:
  "(map_of (REG (cleanup t w)) k = None) = (map_of (REG w) k = None)"
  by (simp add: cleanup_def Let_def)

lemma finalizer_simps [simp]:
  "dom (finalizer t w) = dom w" "REG (finalizer t w) = REG w"
  "log_level (finalizer t w) = log_level w" "calls (finalizer t w) = calls w"
  "reg_lookup (finalizer t w) = reg_lookup w"
  "heap (finalizer t w) = (heap w)[t := (heap w ! t)\<lparr>isDestructing := False, isDestructed := True\<rparr>]"
  by (simp_all add: finalizer_def)

lemma frameI:
  assumes "length (heap w') = length (heap w)" "length (dom w') = length (dom w)"
    "log_level w' = log_level w"
    "\<And>r. r < length (heap w) \<Longrightarrow> r \<notin> T \<Longrightarrow> heap w' ! r = heap w ! r"
    "\<And>r. r < length (heap w) \<Longrightarrow> className (heap w' ! r) = className (heap w ! r)"
    "\<And>r. r < length (heap w) \<Longrightarrow> inst_id (heap w' ! r) = inst_id (heap w ! r)"
    "\<And>r. r < length (heap w) \<Longrightarrow> root (heap w' ! r) = root (heap w ! r)"
    "\<And>r. r < length (heap w) \<Longrightarrow> Active w' r \<Longrightarrow> Active w r"
    "\<And>c i r. reg_lookup w c i = Some r \<Longrightarrow> r \<notin> T \<or> (r < length (heap w) \<and> Active w' r) \<Longrightarrow>
        reg_lookup w' c i = Some r"
    "\<And>c i. reg_lookup w' c i = None \<or> reg_lookup w' c i = reg_lookup w c i"
    "\<And>c. map_of (REG w) c \<noteq> None \<Longrightarrow> map_of (REG w') c \<noteq> None"
    "\<And>el. el < length (dom w) \<Longrightarrow> el_id (dom w' ! el) = el_id (dom w ! el)"
    "\<And>el. el < length (dom w) \<Longrightarrow>
        light_name (dom w' ! el) = None \<or> light_name (dom w' ! el) = light_name (dom w ! el)"
    "\<exists>cs. calls w' = calls w @ cs \<and> fst ` set cs \<subseteq> T"
  shows "frame T w w'"
  unfolding frame_def using assms by simp

lemma frameD:
  assumes "frame T w w'"
  shows "length (heap w') = length (heap w)" "length (dom w') = length (dom w)"
    "log_level w' = log_level w"
    "\<And>r. r < length (heap w) \<Longrightarrow> r \<notin> T \<Longrightarrow> heap w' ! r = heap w ! r"
    "\<And>r. r < length (heap w) \<Longrightarrow> className (heap w' ! r) = className (heap w ! r)"
    "\<And>r. r < length (heap w) \<Longrightarrow> inst_id (heap w' ! r) = inst_id (heap w ! r)"
    "\<And>r. r < length (heap w) \<Longrightarrow> root (heap w' ! r) = root (heap w ! r)"
    "\<And>r. r < length (heap w) \<Longrightarrow> Active w' r \<Longrightarrow> Active w r"
    "\<And>c i r. reg_lookup w c i = Some r \<Longrightarrow> r \<notin> T \<or> (r < length (heap w) \<and> Active w' r) \<Longrightarrow>
        reg_lookup w' c i = Some r"
    "\<And>c i. reg_lookup w' c i = None \<or> reg_lookup w' c i = reg_lookup w c i"
    "\<And>c. map_of (REG w) c \<noteq> None \<Longrightarrow> map_of (REG w') c \<noteq> None"
    "\<And>el. el < length (dom w) \<Longrightarrow> el_id (dom w' ! el) = el_id (dom w ! el)"
    "\<And>el. el < length (dom w) \<Longrightarrow>
        light_name (dom w' ! el) = None \<or> light_name (dom w' ! el) = light_name (dom w ! el)"
    "\<exists>cs. calls w' = calls w @ cs \<and> fst ` set cs \<subseteq> T"
  using assms unfolding frame_def by simp_all

lemma frame_refl: "frame T w w"
  by (rule frameI) simp_all

lemma frame_mono:
  assumes a: "frame T w w'" and s: "T \<subseteq> T'"
  shows "frame T' w w'"
proof (rule frameI)
  note A = frameD[OF a]
  show "heap w' ! r = heap w ! r" if "r < length (heap w)" "r \<notin> T'" for r
    using that s A(4)[of r] by blast
  show "reg_lookup w' c i = Some r"
    if "reg_lookup w c i = Some r" "r \<notin> T' \<or> (r < length (heap w) \<and> Active w' r)" for c i r
    using that s A(9)[of c i r] by blast
  show "\<exists>cs. calls w' = calls w @ cs \<and> fst ` set cs \<subseteq> T'"
    using s A(14) by blast
  show "length (heap w') = length (heap w)" by (rule A(1))
  show "length (dom w') = length (dom w)" by (rule A(2))
  show "log_level w' = log_level w" by (rule A(3))
  show "className (heap w' ! r) = className (heap w ! r)" if "r < length (heap w)" for r
    using that by (rule A(5))
  show "inst_id (heap w' ! r) = inst_id (heap w ! r)" if "r < length (heap w)" for r
    using that by (rule A(6))
  show "root (heap w' ! r) = root (heap w ! r)" if "r < length (heap w)" for r
    using that by (rule A(7))
  show "Active w r" if "r < length (heap w)" "Active w' r" for r
    using that by (rule A(8))
  show "reg_lookup w' c i = None \<or> reg_lookup w' c i = reg_lookup w c i" for c i
    by (rule A(10))
  show "map_of (REG w') c \<noteq> None" if "map_of (REG w) c \<noteq> None" for c
    using that by (rule A(11))
  show "el_id (dom w' ! el) = el_id (dom w ! el)" if "el < length (dom w)" for el
    using that by (rule A(12))
  show "light_name (dom w' ! el) = None \<or> light_name (dom w' ! el) = light_name (dom w ! el)"
    if "el < length (dom w)" for el
    using that by (rule A(13))
qed

lemma frame_trans:
  assumes a: "frame T w w1" and b: "frame T w1 w2"
  shows "frame T w w2"
proof (rule frameI)
  note A = frameD[OF a] and B = frameD[OF b]
  show "length (heap w2) = length (heap w)" using A(1) B(1) by simp
  show "length (dom w2) = length (dom w)" using A(2) B(2) by simp
  show "log_level w2 = log_level w" using A(3) B(3) by simp
  show "heap w2 ! r = heap w ! r" if "r < length (heap w)" "r \<notin> T" for r
    using that A(1) A(4)[of r] B(4)[of r] by simp
  show "className (heap w2 ! r) = className (heap w ! r)" if "r < length (heap w)" for r
    using that A(1) A(5)[of r] B(5)[of r] by simp
  show "inst_id (heap w2 ! r) = inst_id (heap w ! r)" if "r < length (heap w)" for r
    using that A(1) A(6)[of r] B(6)[of r] by simp
  show "root (heap w2 ! r) = root (heap w ! r)" if "r < length (heap w)" for r
    using that A(1) A(7)[of r] B(7)[of r] by simp
  show "Active w r" if "r < length (heap w)" "Active w2 r" for r
    using that A(1) A(8)[of r] B(8)[of r] by simp
  show "reg_lookup w2 c i = Some r"
    if "reg_lookup w c i = Some r" "r \<notin> T \<or> (r < length (heap w) \<and> Active w2 r)" for c i r
  proof -
    from that(2) have "r \<notin> T \<or> (r < length (heap w) \<and> Active w1 r)"
      using A(1) B(8)[of r] by auto
    with that(1) have "reg_lookup w1 c i = Some r" by (rule A(9))
    moreover from that(2) have "r \<notin> T \<or> (r < length (heap w1) \<and> Active w2 r)"
      using A(1) by auto
    ultimately show ?thesis by (rule B(9))
  qed
  show "reg_lookup w2 c i = None \<or> reg_lookup w2 c i = reg_lookup w c i" for c i
    using A(10)[of c i] B(10)[of c i] by auto
  show "map_of (REG w2) c \<noteq> None" if "map_of (REG w) c \<noteq> None" for c
    using that A(11)[of c] B(11)[of c] by blast
  show "el_id (dom w2 ! el) = el_id (dom w ! el)" if "el < length (dom w)" for el
    using that A(2) A(12)[of el] B(12)[of el] by simp
  show "light_name (dom w2 ! el) = None \<or> light_name (dom w2 ! el) = light_name (dom w ! el)"
    if "el < length (dom w)" for el
    using that A(2) A(13)[of el] B(13)[of el] by auto
  from A(14) B(14) obtain cs1 cs2 where
    "calls w1 = calls w @ cs1" "fst ` set cs1 \<subseteq> T" "calls w2 = calls w1 @ cs2" "fst ` set cs2 \<subseteq> T"
    by blast
  then have "calls w2 = calls w @ (cs1 @ cs2) \<and> fst ` set (cs1 @ cs2) \<subseteq> T" by auto
  then show "\<exists>cs. calls w2 = calls w @ cs \<and> fst ` set cs \<subseteq> T" by blast
qed

lemma frame_wf:
  assumes a: "frame T w w'" and wf: "wf_world w"
  shows "wf_world w'"
proof -
  note A = frameD[OF a]
  have "r < length (heap w')" if "reg_lookup w' c i = Some r" for c i r
  proof -
    from that A(10)[of c i] have "reg_lookup w c i = Some r" by auto
    with wf A(1) show ?thesis by (simp add: wf_world_def)
  qed
  moreover have "root (heap w' ! r) < length (dom w')" if "r < length (heap w')" for r
    using that wf A(1) A(2) A(7)[of r] by (simp add: wf_world_def)
  ultimately show ?thesis by (simp add: wf_world_def)
qed

lemma frame_Acts:
  assumes a: "frame T w w'"
  shows "Acts w' \<subseteq> Acts w"
  using frameD(1)[OF a] frameD(8)[OF a] by (auto simp: Acts_def)

lemma Active_upd_other: "r \<noteq> t \<Longrightarrow> Active (upd_inst t f w) r = Active w r"
  by (simp add: Active_def)

lemma frame_begin:
  assumes "t < length (heap w)" "t \<in> T"
  shows "frame T w (begin_destruct t w)"
proof (rule frameI)
  show "Active w r" if "r < length (heap w)" "Active (begin_destruct t w) r" for r
    using that assms by (cases "r = t") (simp_all add: begin_destruct_def Active_def)
  show "heap (begin_destruct t w) ! r = heap w ! r" if "r < length (heap w)" "r \<notin> T" for r
    using that assms by (cases "r = t") (simp_all add: begin_destruct_def)
  show "className (heap (begin_destruct t w) ! r) = className (heap w ! r)" if "r < length (heap w)" for r
    using that by (cases "r = t") (simp_all add: begin_destruct_def)
  show "inst_id (heap (begin_destruct t w) ! r) = inst_id (heap w ! r)" if "r < length (heap w)" for r
    using that by (cases "r = t") (simp_all add: begin_destruct_def)
  show "root (heap (begin_destruct t w) ! r) = root (heap w ! r)" if "r < length (heap w)" for r
    using that by (cases "r = t") (simp_all add: begin_destruct_def)
  show "map_of (REG (begin_destruct t w)) c \<noteq> None" if "map_of (REG w) c \<noteq> None" for c
    using that bucket_ensure[of "className (heap w ! t)" w c] by (simp add: begin_destruct_def)
  show "\<exists>cs. calls (begin_destruct t w) = calls w @ cs \<and> fst ` set cs \<subseteq> T"
    using assms by (simp add: begin_destruct_def)
qed (simp_all add: begin_destruct_def)

lemma frame_log: "t \<in> T \<Longrightarrow> frame T w (L_log t l m e w)"
  by (rule frameI) auto

lemma frame_ensure: "frame T w (ensureClassBucket c w)"
proof (rule frameI)
  show "map_of (REG (ensureClassBucket c w)) k \<noteq> None" if "map_of (REG w) k \<noteq> None" for k
    using that bucket_ensure[of c w k] by simp
qed simp_all

lemma dom_clear_simps [simp]:
  "length (dom_clear el d) = length d"
  "k < length d \<Longrightarrow> el_id (dom_clear el d ! k) = el_id (d ! k)"
  "k < length d \<Longrightarrow> light_name (dom_clear el d ! k) = light_name (d ! k)"
  "k < length d \<Longrightarrow> parentElement (dom_clear el d ! k)
       = (if parentElement (d ! k) = Some el then None else parentElement (d ! k))"
  by (simp_all add: dom_clear_def)

lemma removeAttribute_simps [simp]:
  "length (removeAttribute_light_name el d) = length d"
  "k < length d \<Longrightarrow> el_id (removeAttribute_light_name el d ! k) = el_id (d ! k)"
  "k < length d \<Longrightarrow> parentElement (removeAttribute_light_name el d ! k) = parentElement (d ! k)"
  "k < length d \<Longrightarrow> light_name (removeAttribute_light_name el d ! k)
       = (if k = el then None else light_name (d ! k))"
  by (cases "k = el"; simp add: removeAttribute_light_name_def)+

lemma frame_end:
  assumes t: "t < length (heap w)" "t \<in> T"
  shows "frame T w (finalizer t (cleanup t w))"
proof (rule frameI)
  let ?w' = "finalizer t (cleanup t w)"
  have l: "heap (cleanup t w) = (heap w)[t := cleared (heap w ! t)]"
    using t(1) by (rule cleanup_heap)
  have h: "heap ?w' = (heap w)[t := (cleared (heap w ! t))\<lparr>isDestructing := False, isDestructed := True\<rparr>]"
    using t by (simp add: l)
  show "length (heap ?w') = length (heap w)" by (simp add: h del: finalizer_simps)
  show "length (dom ?w') = length (dom w)" using t by (simp add: cleanup_dom)
  show "log_level ?w' = log_level w" by simp
  show "heap ?w' ! r = heap w ! r" if "r < length (heap w)" "r \<notin> T" for r
    using that t by (cases "r = t") (simp_all add: h del: finalizer_simps)
  show "className (heap ?w' ! r) = className (heap w ! r)" if "r < length (heap w)" for r
    using that by (cases "r = t") (simp_all add: h del: finalizer_simps)
  show "inst_id (heap ?w' ! r) = inst_id (heap w ! r)" if "r < length (heap w)" for r
    using that by (cases "r = t") (simp_all add: h del: finalizer_simps)
  show "root (heap ?w' ! r) = root (heap w ! r)" if "r < length (heap w)" for r
    using that by (cases "r = t") (simp_all add: h del: finalizer_simps)
  show "Active w r" if "r < length (heap w)" "Active ?w' r" for r
    using that by (cases "r = t") (simp_all add: h Active_def del: finalizer_simps)
  show "reg_lookup ?w' c i = Some r"
    if "reg_lookup w c i = Some r" "r \<notin> T \<or> (r < length (heap w) \<and> Active ?w' r)" for c i r
  proof -
    have "\<not> Active ?w' t" using t by (simp add: h Active_def del: finalizer_simps)
    with that(2) t have "r \<noteq> t" by auto
    with that(1) show ?thesis using t by (auto simp: cleanup_reg)
  qed
  show "reg_lookup ?w' c i = None \<or> reg_lookup ?w' c i = reg_lookup w c i" for c i
    using t by (simp add: cleanup_reg)
  show "map_of (REG ?w') c \<noteq> None" if "map_of (REG w) c \<noteq> None" for c
    using that cleanup_buckets[of t w c] by simp
  show "el_id (dom ?w' ! el) = el_id (dom w ! el)" if "el < length (dom w)" for el
    using that t by (simp add: cleanup_dom)
  show "light_name (dom ?w' ! el) = None \<or> light_name (dom ?w' ! el) = light_name (dom w ! el)"
    if "el < length (dom w)" for el
    using that t by (simp add: cleanup_dom)
  show "\<exists>cs. calls ?w' = calls w @ cs \<and> fst ` set cs \<subseteq> T"
    using t by (auto simp: cleanup_calls_eq)
qed

lemma cascade_Cons:
  "cascade d t (el # els) w =
     (case cascade_target w el of
        None \<Rightarrow> cascade d t els w
      | Some inst \<Rightarrow>
          (case d w inst of
             None \<Rightarrow> None
           | Some (w', None) \<Rightarrow> cascade d t els w'
           | Some (w', Some e) \<Rightarrow>
               cascade d t els (L_log t danger ''child destruct error'' (Some e) w')))"
  by (simp add: cascade_target_def Let_def split: option.splits)

declare cascade.simps(2) [simp del]

lemma cascade_target_wf:
  "wf_world w \<Longrightarrow> cascade_target w el = Some c \<Longrightarrow> c < length (heap w) \<and> Active w c"
  by (auto simp: cascade_target_def Let_def wf_world_def split: option.splits if_splits)

lemma destruct_with_active:
  "Active w t \<Longrightarrow>
   destruct_with d w t =
     (case cascade d t (collectOwnedDescendantsDeepFirst (begin_destruct t w) t) (begin_destruct t w) of
        None \<Rightarrow> None
      | Some w2 \<Rightarrow> Some (finalizer t (cleanup t w2), None))"
  by (simp add: destruct_with_def Let_def begin_destruct_def Active_def)

lemma destruct_with_inactive:
  "\<not> Active w t \<Longrightarrow>
   \<exists>e. destruct_with d w t = Some (ensureClassBucket (className (heap w ! t)) w, Some e)"
  by (auto simp: destruct_with_def Let_def Active_def L_assert_def)

lemma cascade_frame:
  assumes d: "\<And>w c w' e. wf_world w \<Longrightarrow> c < length (heap w) \<Longrightarrow> Active w c \<Longrightarrow>
                 d w c = Some (w', e) \<Longrightarrow> frame (Acts w) w w' \<and> e = None"
  shows "wf_world w \<Longrightarrow> cascade d t els w = Some w' \<Longrightarrow> frame (Acts w) w w'"
proof (induction els arbitrary: w)
  case Nil
  then show ?case by (simp add: frame_refl)
next
  case (Cons el els)
  show ?case
  proof (cases "cascade_target w el")
    case None
    with Cons show ?thesis by (simp add: cascade_Cons)
  next
    case (Some c)
    with Cons.prems(1) have c: "c < length (heap w)" "Active w c"
      using cascade_target_wf by blast+
    from Cons.prems(2) Some obtain w1 e where dc: "d w c = Some (w1, e)"
      by (auto simp: cascade_Cons split: option.splits)
    from d[OF Cons.prems(1) c dc] have f1: "frame (Acts w) w w1" and e: "e = None" by simp_all
    from Cons.prems(2) Some dc e have rest: "cascade d t els w1 = Some w'"
      by (simp add: cascade_Cons)
    have wf1: "wf_world w1" using f1 Cons.prems(1) by (rule frame_wf)
    have "frame (Acts w1) w1 w'" using wf1 rest by (rule Cons.IH)
    then have "frame (Acts w) w1 w'" using frame_Acts[OF f1] by (rule frame_mono)
    with f1 show ?thesis by (rule frame_trans)
  qed
qed

lemma Acts_begin:
  assumes "t < length (heap w)"
  shows "Acts (begin_destruct t w) = Acts w - {t}"
  using assms
  by (auto simp: Acts_def begin_destruct_def Active_def nth_list_update)

lemma heap_begin:
  "length (heap (begin_destruct t w)) = length (heap w)"
  by (simp add: begin_destruct_def)

lemma destruct_frame:
  "wf_world w \<Longrightarrow> t < length (heap w) \<Longrightarrow> destruct n w t = Some (w', e) \<Longrightarrow>
   frame (Acts w) w w' \<and> (Active w t \<longrightarrow> e = None)"
proof (induction n arbitrary: w t w' e)
  case 0
  then show ?case by simp
next
  case (Suc n)
  show ?case
  proof (cases "Active w t")
    case False
    with Suc.prems(3) destruct_with_inactive[OF False, of "destruct n"]
    show ?thesis by (auto simp: frame_ensure)
  next
    case True
    let ?w1 = "begin_destruct t w"
    from True Suc.prems(2) have tin: "t \<in> Acts w" by (simp add: Acts_def)
    from True Suc.prems(3) obtain w2 where
      c: "cascade (destruct n) t (collectOwnedDescendantsDeepFirst ?w1 t) ?w1 = Some w2"
      and w': "w' = finalizer t (cleanup t w2)" and e: "e = None"
      by (auto simp: destruct_with_active split: option.splits)
    have f1: "frame (Acts w) w ?w1" using Suc.prems(2) tin by (rule frame_begin)
    have wf1: "wf_world ?w1" using f1 Suc.prems(1) by (rule frame_wf)
    have "frame (Acts ?w1) ?w1 w2"
    proof (rule cascade_frame[where d = "destruct n", OF _ wf1 c])
      show "frame (Acts w) w w' \<and> e = None"
        if "wf_world w" "c < length (heap w)" "Active w c" "destruct n w c = Some (w', e)"
        for w c w' e
        using Suc.IH[OF that(1,2,4)] that(3) by simp
    qed
    then have "frame (Acts w) ?w1 w2" using frame_Acts[OF f1] by (rule frame_mono)
    with f1 have f2: "frame (Acts w) w w2" by (rule frame_trans)
    have "t < length (heap w2)" using frameD(1)[OF f2] Suc.prems(2) by simp
    then have "frame (Acts w) w2 w'" unfolding w' using tin by (rule frame_end)
    with f2 have "frame (Acts w) w w'" by (rule frame_trans)
    with e show ?thesis by simp
  qed
qed

lemma finite_Acts [simp]: "finite (Acts w)"
  by (simp add: Acts_def)

lemma cascade_total:
  assumes d: "\<And>w c w' e. wf_world w \<Longrightarrow> c < length (heap w) \<Longrightarrow> Active w c \<Longrightarrow>
                 d w c = Some (w', e) \<Longrightarrow> frame (Acts w) w w' \<and> e = None"
    and tot: "\<And>w c. wf_world w \<Longrightarrow> c < length (heap w) \<Longrightarrow> card (Acts w) \<le> m \<Longrightarrow>
                 d w c \<noteq> None"
  shows "wf_world w \<Longrightarrow> card (Acts w) \<le> m \<Longrightarrow> cascade d t els w \<noteq> None"
proof (induction els arbitrary: w)
  case Nil
  then show ?case by simp
next
  case (Cons el els)
  show ?case
  proof (cases "cascade_target w el")
    case None
    with Cons show ?thesis by (simp add: cascade_Cons)
  next
    case (Some c)
    with Cons.prems(1) have c: "c < length (heap w)" "Active w c"
      using cascade_target_wf by blast+
    from tot[OF Cons.prems(1) c(1) Cons.prems(2)] obtain w1 e where dc: "d w c = Some (w1, e)"
      by auto
    from d[OF Cons.prems(1) c dc] have f1: "frame (Acts w) w w1" and e: "e = None" by simp_all
    have wf1: "wf_world w1" using f1 Cons.prems(1) by (rule frame_wf)
    have "card (Acts w1) \<le> card (Acts w)" using frame_Acts[OF f1] by (simp add: card_mono)
    with Cons.prems(2) have "card (Acts w1) \<le> m" by simp
    with wf1 have "cascade d t els w1 \<noteq> None" by (rule Cons.IH)
    with Some dc e show ?thesis by (simp add: cascade_Cons)
  qed
qed

lemma destruct_total:
  "wf_world w \<Longrightarrow> t < length (heap w) \<Longrightarrow> card (Acts w) \<le> n \<Longrightarrow> destruct (Suc n) w t \<noteq> None"
proof (induction n arbitrary: w t)
  case 0
  then have "\<not> Active w t" by (simp add: Acts_def)
  with destruct_with_inactive[of w t "destruct 0"] show ?case by auto
next
  case (Suc n)
  show ?case
  proof (cases "Active w t")
    case False
    with destruct_with_inactive[of w t "destruct (Suc n)"] show ?thesis by auto
  next
    case True
    let ?w1 = "begin_destruct t w"
    from True Suc.prems(2) have tin: "t \<in> Acts w" by (simp add: Acts_def)
    have f1: "frame (Acts w) w ?w1" using Suc.prems(2) tin by (rule frame_begin)
    have wf1: "wf_world ?w1" using f1 Suc.prems(1) by (rule frame_wf)
    have "card (Acts ?w1) = card (Acts w) - 1"
      using tin by (simp add: Acts_begin[OF Suc.prems(2)])
    moreover have "card (Acts w) \<ge> 1"
      using tin card_gt_0_iff[of "Acts w"] by (auto simp: Suc_le_eq)
    ultimately have c1: "card (Acts ?w1) \<le> n" using Suc.prems(3) by simp
    have "cascade (destruct (Suc n)) t (collectOwnedDescendantsDeepFirst ?w1 t) ?w1 \<noteq> None"
    proof (rule cascade_total[where m = n, OF _ _ wf1 c1])
      show "frame (Acts w) w w' \<and> e = None"
        if "wf_world w" "c < length (heap w)" "Active w c" "destruct (Suc n) w c = Some (w', e)"
        for w c w' e
        using destruct_frame[OF that(1,2,4)] that(3) by simp
      show "destruct (Suc n) w c \<noteq> None"
        if "wf_world w" "c < length (heap w)" "card (Acts w) \<le> n" for w c
        using that by (rule Suc.IH)
    qed
    with True show ?thesis by (auto simp: destruct_with_active split: option.splits)
  qed
qed

section \<open>Destruction releases everything\<close>







text \<open>The shape of a completed \<open>destruct()\<close> of an \<open>Active\<close> instance.\<close>

lemma destruct_active_shape:
  assumes wf: "wf_world w" and t: "t < length (heap w)" and act: "Active w t"
    and run: "destruct (Suc n) w t = Some (w', e)"
  obtains w2 cs where
    "cascade (destruct n) t (collectOwnedDescendantsDeepFirst (begin_destruct t w) t)
       (begin_destruct t w) = Some w2"
    "w' = finalizer t (cleanup t w2)" "e = None"
    "frame (Acts (begin_destruct t w)) (begin_destruct t w) w2"
    "heap w2 ! t = (heap w ! t)\<lparr>isDestructing := True\<rparr>"
    "calls w2 = calls w @ (t, DestructBegin) # cs" "t \<notin> fst ` set cs"
    "length (heap w2) = length (heap w)"
proof -
  let ?w1 = "begin_destruct t w"
  from act t have tin: "t \<in> Acts w" by (simp add: Acts_def)
  from act run obtain w2 where
    c: "cascade (destruct n) t (collectOwnedDescendantsDeepFirst ?w1 t) ?w1 = Some w2"
    and w': "w' = finalizer t (cleanup t w2)" and e: "e = None"
    by (auto simp: destruct_with_active split: option.splits)
  have f1: "frame (Acts w) w ?w1" using t tin by (rule frame_begin)
  have wf1: "wf_world ?w1" using f1 wf by (rule frame_wf)
  have f2: "frame (Acts ?w1) ?w1 w2"
  proof (rule cascade_frame[where d = "destruct n", OF _ wf1 c])
    show "frame (Acts w) w w' \<and> e = None"
      if "wf_world w" "c < length (heap w)" "Active w c" "destruct n w c = Some (w', e)"
      for w c w' e
      using destruct_frame[OF that(1,2,4)] that(3) by simp
  qed
  have t1: "t < length (heap ?w1)" using t by (simp add: heap_begin)
  have nin: "t \<notin> Acts ?w1" using t by (simp add: Acts_begin)
  have h2: "heap w2 ! t = (heap w ! t)\<lparr>isDestructing := True\<rparr>"
    using frameD(4)[OF f2 t1 nin] t by (simp add: begin_destruct_def)
  from frameD(14)[OF f2] obtain cs where cs: "calls w2 = calls ?w1 @ cs" "fst ` set cs \<subseteq> Acts ?w1"
    by blast
  have c2: "calls w2 = calls w @ (t, DestructBegin) # cs"
    using cs(1) by (simp add: begin_destruct_def)
  have tn: "t \<notin> fst ` set cs" using cs(2) nin by blast
  have l: "length (heap w2) = length (heap w)" using frameD(1)[OF f2] by (simp add: heap_begin)
  from c w' e f2 h2 c2 tn l show ?thesis by (rule that)
qed

lemma card_Acts_le: "card (Acts w) \<le> length (heap w)"
proof -
  have "Acts w \<subseteq> {..<length (heap w)}" by (auto simp: Acts_def)
  then have "card (Acts w) \<le> card {..<length (heap w)}" by (intro card_mono) simp_all
  then show ?thesis by simp
qed

lemma filter_fst_notin: "t \<notin> fst ` set cs \<Longrightarrow> filter (\<lambda>p. fst p = t) cs = []"
  by (induction cs) auto

lemma filter_fst_Pair: "filter (\<lambda>p. fst p = t) (map (Pair t) xs) = map (Pair t) xs"
  by (induction xs) auto

lemma cleanup_calls_flag [simp]:
  "cleanup_calls (i\<lparr>isDestructing := b\<rparr>) = cleanup_calls i"
  by (simp add: cleanup_calls_def)

lemma destruct_active_result:
  assumes wf: "wf_world w" and t: "t < length (heap w)" and act: "Active w t"
    and run: "destruct (Suc n) w t = Some (w', e)"
  shows "e = None"
    and "heap w' ! t = (cleared (heap w ! t))\<lparr>isDestructing := False, isDestructed := True\<rparr>"
    and "light_name (dom w' ! root (heap w ! t)) = None"
    and "(\<forall>r. reg_lookup w (className (heap w ! t)) (inst_id (heap w ! t)) = Some r \<longrightarrow> r = t)
         \<Longrightarrow> reg_lookup w' (className (heap w ! t)) (inst_id (heap w ! t)) = None"
    and "own_calls t w w' =
           DestructBegin # cleanup_calls (heap w ! t) @
           (if enabled w info then [Console info (''destructed v'' @ version (heap w ! t)) None]
            else [])"
proof -
  let ?w1 = "begin_destruct t w"
  let ?i = "heap w ! t"
  obtain w2 cs where
    "cascade (destruct n) t (collectOwnedDescendantsDeepFirst ?w1 t) ?w1 = Some w2"
    and w': "w' = finalizer t (cleanup t w2)" and e: "e = None"
    and f2: "frame (Acts ?w1) ?w1 w2"
    and h2: "heap w2 ! t = ?i\<lparr>isDestructing := True\<rparr>"
    and c2: "calls w2 = calls w @ (t, DestructBegin) # cs" and tn: "t \<notin> fst ` set cs"
    and l2: "length (heap w2) = length (heap w)"
    by (rule destruct_active_shape[OF wf t act run])
  show "e = None" by (rule e)
  have t2: "t < length (heap w2)" using t l2 by simp
  have hc: "heap (cleanup t w2) = (heap w2)[t := cleared (heap w2 ! t)]"
    using t2 by (rule cleanup_heap)
  show "heap w' ! t = (cleared ?i)\<lparr>isDestructing := False, isDestructed := True\<rparr>"
    using t2 by (simp add: w' hc h2 cleared_def)
  have rt: "root ?i < length (dom w2)"
    using wf t frameD(2)[OF f2] by (simp add: wf_world_def begin_destruct_def)
  show "light_name (dom w' ! root ?i) = None"
    using rt t2 by (simp add: w' cleanup_dom h2)
  have lk: "reg_lookup w2 (className ?i) (inst_id ?i) = None
        \<or> reg_lookup w2 (className ?i) (inst_id ?i) = reg_lookup w (className ?i) (inst_id ?i)"
    using frameD(10)[OF f2, of "className ?i" "inst_id ?i"] by (simp add: begin_destruct_def)
  show "reg_lookup w' (className ?i) (inst_id ?i) = None"
    if slot: "\<forall>r. reg_lookup w (className ?i) (inst_id ?i) = Some r \<longrightarrow> r = t"
  proof -
    from lk slot have "reg_lookup w2 (className ?i) (inst_id ?i) = None
        \<or> reg_lookup w2 (className ?i) (inst_id ?i) = Some t"
      by (cases "reg_lookup w (className ?i) (inst_id ?i)") auto
    then show ?thesis using t2 by (auto simp: w' cleanup_reg h2)
  qed
  have en: "enabled w2 = enabled w"
    using frameD(3)[OF f2] by (intro enabled_level) (simp add: begin_destruct_def)
  have "calls w' = calls w @ (t, DestructBegin) # cs @ map (Pair t) (cleanup_calls ?i) @
           (if enabled w info then [(t, Console info (''destructed v'' @ version ?i) None)] else [])"
    using t2 by (simp add: w' cleanup_calls_eq h2 c2 en)
  then have "calls_during w w' = (t, DestructBegin) # cs @ map (Pair t) (cleanup_calls ?i) @
           (if enabled w info then [(t, Console info (''destructed v'' @ version ?i) None)] else [])"
    by (simp add: calls_during_def)
  then show "own_calls t w w' =
           DestructBegin # cleanup_calls ?i @
           (if enabled w info then [Console info (''destructed v'' @ version ?i) None] else [])"
    using tn by (simp add: own_calls_def filter_fst_notin filter_fst_Pair comp_def)
qed


lemma demo_wf: "wf_world demo_world"
  by (auto simp: wf_world_def reg_lookup_def demo_world_def demo_dom_def bare_def nth_Cons'
      split: if_splits option.splits)

lemma demo_facts:
  "0 < length (heap demo_world)" "Active demo_world 0" "Sets_ok (heap demo_world ! 0)"
  "className (heap demo_world ! 0) = ''Panel''" "inst_id (heap demo_world ! 0) = ''p''"
  "root (heap demo_world ! 0) = 1" "length (heap demo_world) \<le> 3"
  "reg_lookup demo_world ''Panel'' ''p'' = Some 0"
  "timeouts (heap demo_world ! 0) = [7]"
  by (simp_all add: demo_world_def bare_def Active_def Sets_ok_def reg_lookup_def)


section \<open>Calling destruct again\<close>

lemma destruct_with_destructed:
  "isDestructed (heap w ! t) \<Longrightarrow>
   destruct_with d w t =
     Some (ensureClassBucket (className (heap w ! t)) w,
           LB_assert False ''LightBase.ALREADY_DESTRUCTED''
             (JObj [(''cls'', JStr (className (heap w ! t))), (''id'', JStr (inst_id (heap w ! t)))]))"
  by (simp add: destruct_with_def Let_def)

lemma destruct_with_destructing:
  "\<not> isDestructed (heap w ! t) \<Longrightarrow> isDestructing (heap w ! t) \<Longrightarrow>
   destruct_with d w t =
     Some (ensureClassBucket (className (heap w ! t)) w,
           LB_assert False ''LightBase.DESTRUCT_IN_PROGRESS''
             (JObj [(''cls'', JStr (className (heap w ! t))), (''id'', JStr (inst_id (heap w ! t)))]))"
  by (simp add: destruct_with_def Let_def)

lemma LB_assert_code:
  "code \<noteq> [] \<Longrightarrow> \<exists>e. LB_assert False code (JObj kvs) = Some e \<and> err_code e = code
      \<and> err_info e = JObj kvs"
  by (simp add: L_assert_def is_object_def Let_def)

lemma destruct_returned_active:
  assumes "destruct n w t = Some (w1, None)"
  shows "Active w t \<and> (\<exists>k. n = Suc k)"
proof (cases n)
  case 0
  with assms show ?thesis by simp
next
  case (Suc k)
  show ?thesis
  proof (cases "Active w t")
    case True
    with Suc show ?thesis by simp
  next
    case False
    from destruct_with_inactive[OF False, of "destruct k"] assms Suc show ?thesis by auto
  qed
qed

lemma destruct_done_state:
  assumes wf: "wf_world w" and t: "t < length (heap w)"
    and run: "destruct n w t = Some (w1, None)"
  shows "isDestructed (heap w1 ! t)" "className (heap w1 ! t) = className (heap w ! t)"
    "inst_id (heap w1 ! t) = inst_id (heap w ! t)"
    "map_of (REG w1) (className (heap w ! t)) \<noteq> None"
proof -
  from destruct_returned_active[OF run] obtain k where act: "Active w t" and n: "n = Suc k"
    by blast
  let ?w1 = "begin_destruct t w"
  obtain w2 cs where
    "cascade (destruct k) t (collectOwnedDescendantsDeepFirst ?w1 t) ?w1 = Some w2"
    and w1: "w1 = finalizer t (cleanup t w2)" and "None = (None :: exn option)"
    and f2: "frame (Acts ?w1) ?w1 w2"
    and h2: "heap w2 ! t = (heap w ! t)\<lparr>isDestructing := True\<rparr>"
    and "calls w2 = calls w @ (t, DestructBegin) # cs" and "t \<notin> fst ` set cs"
    and l2: "length (heap w2) = length (heap w)"
    by (rule destruct_active_shape[OF wf t act run[unfolded n]])
  have t2: "t < length (heap w2)" using t l2 by simp
  have hc: "heap (cleanup t w2) = (heap w2)[t := cleared (heap w2 ! t)]"
    using t2 by (rule cleanup_heap)
  have h: "heap w1 ! t = (cleared (heap w ! t))\<lparr>isDestructing := False, isDestructed := True\<rparr>"
    using t2 by (simp add: w1 hc h2 cleared_def)
  show "isDestructed (heap w1 ! t)" "className (heap w1 ! t) = className (heap w ! t)"
    "inst_id (heap w1 ! t) = inst_id (heap w ! t)"
    by (simp_all add: h)
  have "map_of (REG ?w1) (className (heap w ! t)) \<noteq> None"
    using bucket_ensure[of "className (heap w ! t)" w "className (heap w ! t)"]
    by (simp add: begin_destruct_def)
  then have "map_of (REG w2) (className (heap w ! t)) \<noteq> None"
    by (rule frameD(11)[OF f2])
  then show "map_of (REG w1) (className (heap w ! t)) \<noteq> None"
    using cleanup_buckets[of t w2 "className (heap w ! t)"] by (simp add: w1)
qed

text \<open>
  Claim C5.  In a well-formed world: when a call of \<open>destruct()\<close> has returned normally, every
  further call on the same instance throws \<open>LightBase.ALREADY_DESTRUCTED\<close> and leaves the
  world exactly as it was; a call on an instance that is \<open>Destructing\<close> throws
  \<open>LightBase.DESTRUCT_IN_PROGRESS\<close> (the only thing it may have done before is to create
  the empty registry bucket of the kind); and the first call on an \<open>Active\<close> instance does
  return normally.  A throw is a result \<open>Some e\<close>, never a silent return.
\<close>

theorem C5_destruct_twice:
  assumes wf: "wf_world w" and t: "t < length (heap w)"
  shows "(\<forall>n w1. destruct n w t = Some (w1, None) \<longrightarrow>
            (\<forall>m. \<exists>e. destruct (Suc m) w1 t = Some (w1, Some e)
                     \<and> err_code e = ''LightBase.ALREADY_DESTRUCTED''))
       \<and> (isDestructing (heap w ! t) \<and> \<not> isDestructed (heap w ! t) \<longrightarrow>
            (\<forall>m. \<exists>e. destruct (Suc m) w t
                        = Some (ensureClassBucket (className (heap w ! t)) w, Some e)
                     \<and> err_code e = ''LightBase.DESTRUCT_IN_PROGRESS''))
       \<and> (Active w t \<longrightarrow>
            (\<forall>n. length (heap w) \<le> n \<longrightarrow> (\<exists>w1. destruct (Suc n) w t = Some (w1, None))))"
proof (intro conjI allI impI)
  fix n w1 m
  assume run: "destruct n w t = Some (w1, None)"
  note D = destruct_done_state[OF wf t run]
  from D(4) obtain b where "map_of (REG w1) (className (heap w1 ! t)) = Some b"
    by (auto simp: D(2))
  then have same: "ensureClassBucket (className (heap w1 ! t)) w1 = w1" by (rule ensure_idem)
  from LB_assert_code[of "''LightBase.ALREADY_DESTRUCTED''"] obtain e where
    "LB_assert False ''LightBase.ALREADY_DESTRUCTED''
       (JObj [(''cls'', JStr (className (heap w1 ! t))), (''id'', JStr (inst_id (heap w1 ! t)))])
     = Some e" "err_code e = ''LightBase.ALREADY_DESTRUCTED''"
    by (metis list.distinct(1))
  then show "\<exists>e. destruct (Suc m) w1 t = Some (w1, Some e)
               \<and> err_code e = ''LightBase.ALREADY_DESTRUCTED''"
    using destruct_with_destructed[OF D(1), of "destruct m"] same by simp
next
  fix m
  assume a: "isDestructing (heap w ! t) \<and> \<not> isDestructed (heap w ! t)"
  from LB_assert_code[of "''LightBase.DESTRUCT_IN_PROGRESS''"] obtain e where
    "LB_assert False ''LightBase.DESTRUCT_IN_PROGRESS''
       (JObj [(''cls'', JStr (className (heap w ! t))), (''id'', JStr (inst_id (heap w ! t)))])
     = Some e" "err_code e = ''LightBase.DESTRUCT_IN_PROGRESS''"
    by (metis list.distinct(1))
  then show "\<exists>e. destruct (Suc m) w t = Some (ensureClassBucket (className (heap w ! t)) w, Some e)
               \<and> err_code e = ''LightBase.DESTRUCT_IN_PROGRESS''"
    using destruct_with_destructing[of w t "destruct m"] a by simp
next
  fix n
  assume act: "Active w t" and n: "length (heap w) \<le> n"
  have "card (Acts w) \<le> n" using card_Acts_le[of w] n by simp
  with wf t have "destruct (Suc n) w t \<noteq> None" by (rule destruct_total)
  then obtain w1 e where run: "destruct (Suc n) w t = Some (w1, e)" by auto
  with destruct_frame[OF wf t run] act show "\<exists>w1. destruct (Suc n) w t = Some (w1, None)"
    by auto
qed

lemma demo_destructing_facts:
  "wf_world demo_destructing" "0 < length (heap demo_destructing)"
  "isDestructing (heap demo_destructing ! 0)" "\<not> isDestructed (heap demo_destructing ! 0)"
  "ensureClassBucket (className (heap demo_destructing ! 0)) demo_destructing = demo_destructing"
proof -
  have "frame {0} demo_world demo_destructing"
    unfolding demo_destructing_def
    by (rule frameI) (auto simp: demo_world_def bare_def Active_def nth_Cons' reg_lookup_def)
  then show "wf_world demo_destructing" using demo_wf by (rule frame_wf)
  show "0 < length (heap demo_destructing)" "isDestructing (heap demo_destructing ! 0)"
    "\<not> isDestructed (heap demo_destructing ! 0)"
    by (simp_all add: demo_destructing_def demo_world_def bare_def)
  have "map_of (REG demo_destructing) (className (heap demo_destructing ! 0))
        = Some [(''p'', 0)]"
    by (simp add: demo_destructing_def demo_world_def bare_def)
  then show "ensureClassBucket (className (heap demo_destructing ! 0)) demo_destructing
        = demo_destructing"
    by (rule ensure_idem)
qed

theorem C5_witness:
  "wf_world demo_world \<and> Active demo_world 0 \<and>
   (\<exists>w1. destruct 4 demo_world 0 = Some (w1, None) \<and>
      (\<exists>e. destruct 1 w1 0 = Some (w1, Some e) \<and> err_code e = ''LightBase.ALREADY_DESTRUCTED''))
   \<and> isDestructing (heap demo_destructing ! 0) \<and> \<not> isDestructed (heap demo_destructing ! 0) \<and>
   (\<exists>e. destruct 1 demo_destructing 0 = Some (demo_destructing, Some e) \<and>
        err_code e = ''LightBase.DESTRUCT_IN_PROGRESS'')"
proof -
  note A = C5_destruct_twice[OF demo_wf demo_facts(1)]
  note B = C5_destruct_twice[OF demo_destructing_facts(1,2)]
  from A demo_facts(2,7) obtain w1 where r: "destruct (Suc 3) demo_world 0 = Some (w1, None)"
    by blast
  with A obtain e where "destruct (Suc 0) w1 0 = Some (w1, Some e)"
    "err_code e = ''LightBase.ALREADY_DESTRUCTED''"
    by blast
  with r have one: "\<exists>w1. destruct 4 demo_world 0 = Some (w1, None) \<and>
      (\<exists>e. destruct 1 w1 0 = Some (w1, Some e) \<and> err_code e = ''LightBase.ALREADY_DESTRUCTED'')"
    by (auto simp: eval_nat_numeral)
  from B demo_destructing_facts(3,4) obtain e' where
    "destruct (Suc 0) demo_destructing 0
       = Some (ensureClassBucket (className (heap demo_destructing ! 0)) demo_destructing, Some e')"
    "err_code e' = ''LightBase.DESTRUCT_IN_PROGRESS''"
    by blast
  then have two: "\<exists>e. destruct 1 demo_destructing 0 = Some (demo_destructing, Some e) \<and>
        err_code e = ''LightBase.DESTRUCT_IN_PROGRESS''"
    by (auto simp: demo_destructing_facts(5))
  from one two demo_wf demo_facts(2) demo_destructing_facts(3,4) show ?thesis by blast
qed

section \<open>Isolation of failures during destruction\<close>

text \<open>
  Claim C6 as stated fails: in the example world the panel's disposer throws and the level
  \<open>danger\<close> is enabled, yet \<open>destruct()\<close> writes no \<open>danger\<close> line; the failure is dropped.
\<close>

theorem C6_counterexample:
  "disposers (heap demo_world ! 0) = [\<lparr>d_fn = 12, d_throws = Some (Error ''boom'' ''E_USER'' JNull)\<rparr>]
   \<and> enabled demo_world danger
   \<and> destruct 4 demo_world 0 = Some (demo_after, None)
   \<and> own_calls 0 demo_world demo_after =
       [DestructBegin, L_off 4 ''click'' None 11, Dispose 12, ClearTimeout 7, ClearInterval 8,
        CancelFrame 9, Abort \<lparr>ac_ref = 13, ac_throws = Some (Error ''boom'' ''E_USER'' JNull)\<rparr>,
        Console info ''destructed v1.0.1'' None]
   \<and> filter is_danger_log (map snd (calls demo_after)) = []"
  by code_simp

lemma cascade_total_any:
  assumes "\<And>w c. d w c \<noteq> None"
  shows "cascade d t els w \<noteq> None"
proof (induction els arbitrary: w)
  case Nil
  show ?case by simp
next
  case (Cons el els)
  show ?case
  proof (cases "cascade_target w el")
    case None
    with Cons show ?thesis by (simp add: cascade_Cons)
  next
    case (Some c)
    from assms[of w c] obtain w1 e where "d w c = Some (w1, e)" by auto
    with Some Cons show ?thesis by (cases e) (simp_all add: cascade_Cons)
  qed
qed

lemma destructed_after_cleanup:
  assumes "t < length (heap w2)"
  shows "heap (finalizer t (cleanup t w2)) ! t
         = (cleared (heap w2 ! t))\<lparr>isDestructing := False, isDestructed := True\<rparr>"
proof -
  have hc: "heap (cleanup t w2) = (heap w2)[t := cleared (heap w2 ! t)]"
    using assms by (rule cleanup_heap)
  show ?thesis using assms by (simp add: hc)
qed

text \<open>
  Claim C6, amended.  (1) Whatever the destructors of the children do, as long as they come
  back at all: no exception leaves \<open>destruct()\<close> of an \<open>Active\<close> instance, the cleanup steps
  and the finalizer run on the world the cascade leaves, and the instance ends \<open>Destructed\<close>
  with empty resource sets.  (2) A child destructor that throws is caught: the cascade goes
  on with the remaining elements, and a \<open>danger\<close> line is written when that level is
  enabled.  (3) In the base class, with children of the base class: \<open>destruct()\<close> returns
  normally, and the calls the instance makes are the start, one call per listener record,
  disposer, timer, frame and abort controller, and the closing \<open>info\<close> line; a disposer
  or abort that throws stops none of them and is not logged.
\<close>

theorem C6_failures_are_isolated:
  "(\<forall>d w t. (\<forall>w' c. d w' c \<noteq> None) \<and> Active w t \<longrightarrow>
      (\<exists>w2. cascade d t (collectOwnedDescendantsDeepFirst (begin_destruct t w) t)
                (begin_destruct t w) = Some w2
          \<and> destruct_with d w t = Some (finalizer t (cleanup t w2), None)
          \<and> (t < length (heap w2) \<longrightarrow>
               heap (finalizer t (cleanup t w2)) ! t
               = (cleared (heap w2 ! t))\<lparr>isDestructing := False, isDestructed := True\<rparr>)))
   \<and> (\<forall>d w t el els c w1 e. cascade_target w el = Some c \<and> d w c = Some (w1, Some e) \<longrightarrow>
        cascade d t (el # els) w
          = cascade d t els (L_log t danger ''child destruct error'' (Some e) w1)
        \<and> (enabled w1 danger \<longrightarrow>
             calls (L_log t danger ''child destruct error'' (Some e) w1)
             = calls w1 @ [(t, Console danger ''child destruct error'' (Some e))]))
   \<and> (\<forall>w t n. wf_world w \<and> t < length (heap w) \<and> Active w t \<and> length (heap w) \<le> n \<longrightarrow>
        (\<exists>w'. destruct (Suc n) w t = Some (w', None)
            \<and> isDestructed (heap w' ! t) \<and> \<not> isDestructing (heap w' ! t)
            \<and> own_calls t w w' =
                 DestructBegin # cleanup_calls (heap w ! t) @
                 (if enabled w info
                  then [Console info (''destructed v'' @ version (heap w ! t)) None] else [])
            \<and> filter is_danger_log (own_calls t w w') = []))"
proof (intro conjI allI impI)
  fix d :: "world \<Rightarrow> nat \<Rightarrow> (world \<times> exn option) option" and w t
  assume a: "(\<forall>w' c. d w' c \<noteq> None) \<and> Active w t"
  let ?w1 = "begin_destruct t w"
  from a have "cascade d t (collectOwnedDescendantsDeepFirst ?w1 t) ?w1 \<noteq> None"
    by (intro cascade_total_any) simp
  then obtain w2 where c: "cascade d t (collectOwnedDescendantsDeepFirst ?w1 t) ?w1 = Some w2"
    by auto
  with a have "destruct_with d w t = Some (finalizer t (cleanup t w2), None)"
    by (simp add: destruct_with_active)
  with c show "\<exists>w2. cascade d t (collectOwnedDescendantsDeepFirst ?w1 t) ?w1 = Some w2
          \<and> destruct_with d w t = Some (finalizer t (cleanup t w2), None)
          \<and> (t < length (heap w2) \<longrightarrow>
               heap (finalizer t (cleanup t w2)) ! t
               = (cleared (heap w2 ! t))\<lparr>isDestructing := False, isDestructed := True\<rparr>)"
    using destructed_after_cleanup by blast
next
  fix d :: "world \<Rightarrow> nat \<Rightarrow> (world \<times> exn option) option" and w t el els c w1 e
  assume a: "cascade_target w el = Some c \<and> d w c = Some (w1, Some e)"
  then show "cascade d t (el # els) w
          = cascade d t els (L_log t danger ''child destruct error'' (Some e) w1)"
    by (simp add: cascade_Cons)
next
  fix d :: "world \<Rightarrow> nat \<Rightarrow> (world \<times> exn option) option" and w t el els c w1 e
  assume "enabled w1 danger"
  then show "calls (L_log t danger ''child destruct error'' (Some e) w1)
             = calls w1 @ [(t, Console danger ''child destruct error'' (Some e))]"
    by simp
next
  fix w t n
  assume a: "wf_world w \<and> t < length (heap w) \<and> Active w t \<and> length (heap w) \<le> n"
  then have wf: "wf_world w" and t: "t < length (heap w)" and act: "Active w t"
    and n: "length (heap w) \<le> n" by simp_all
  have "card (Acts w) \<le> n" using card_Acts_le[of w] n by simp
  with wf t have "destruct (Suc n) w t \<noteq> None" by (rule destruct_total)
  then obtain w' e where run: "destruct (Suc n) w t = Some (w', e)" by auto
  note R = destruct_active_result[OF wf t act run]
  have nd: "filter is_danger_log (cleanup_calls i) = []" for i
    by (simp add: cleanup_calls_def is_danger_log_def off_call_def filter_empty_conv)
  have "filter is_danger_log (own_calls t w w') = []"
    by (simp add: R(5) nd) (simp add: is_danger_log_def)
  with run R(1) R(2) R(5)
  show "\<exists>w'. destruct (Suc n) w t = Some (w', None)
            \<and> isDestructed (heap w' ! t) \<and> \<not> isDestructing (heap w' ! t)
            \<and> own_calls t w w' =
                 DestructBegin # cleanup_calls (heap w ! t) @
                 (if enabled w info
                  then [Console info (''destructed v'' @ version (heap w ! t)) None] else [])
            \<and> filter is_danger_log (own_calls t w w') = []"
    by simp
qed

lemma demo_begin_facts:
  "cascade_target (begin_destruct 0 demo_world) 3 = Some 2"
  "enabled (begin_destruct 0 demo_world) danger"
  by code_simp+

theorem C6_witness:
  "Active demo_world 0 \<and> wf_world demo_world
   \<and> cascade_target (begin_destruct 0 demo_world) 3 = Some 2
   \<and> enabled (begin_destruct 0 demo_world) danger
   \<and> (\<exists>w2. destruct_with throwing_child demo_world 0 = Some (finalizer 0 (cleanup 0 w2), None))
   \<and> calls (L_log 0 danger ''child destruct error'' (Some (Error ''child failed'' ''E_CHILD'' JNull))
              (begin_destruct 0 demo_world))
     = calls (begin_destruct 0 demo_world) @
       [(0, Console danger ''child destruct error'' (Some (Error ''child failed'' ''E_CHILD'' JNull)))]
   \<and> cascade throwing_child 0 [3] (begin_destruct 0 demo_world)
     = Some (L_log 0 danger ''child destruct error'' (Some (Error ''child failed'' ''E_CHILD'' JNull))
              (begin_destruct 0 demo_world))
   \<and> (\<exists>w'. destruct 4 demo_world 0 = Some (w', None) \<and> isDestructed (heap w' ! 0))"
proof -
  let ?e = "Error ''child failed'' ''E_CHILD'' JNull"
  let ?b = "begin_destruct 0 demo_world"
  note T = C6_failures_are_isolated
  have tot: "\<forall>w' c. throwing_child w' c \<noteq> None" by (simp add: throwing_child_def)
  from T[THEN conjunct1, rule_format, of throwing_child demo_world 0] tot demo_facts(2)
  have one: "\<exists>w2. destruct_with throwing_child demo_world 0 = Some (finalizer 0 (cleanup 0 w2), None)"
    by blast
  have th: "throwing_child ?b 2 = Some (?b, Some ?e)" by (simp add: throwing_child_def)
  note two = T[THEN conjunct2, THEN conjunct1, rule_format, of ?b 3 2 throwing_child ?b ?e 0 "[]"]
  from two demo_begin_facts th
  have l: "calls (L_log 0 danger ''child destruct error'' (Some ?e) ?b)
           = calls ?b @ [(0, Console danger ''child destruct error'' (Some ?e))]"
    and c: "cascade throwing_child 0 [3] ?b
           = Some (L_log 0 danger ''child destruct error'' (Some ?e) ?b)"
    by simp_all
  from T[THEN conjunct2, THEN conjunct2, rule_format, of demo_world 0 3] demo_wf demo_facts(1,2,7)
  have three: "\<exists>w'. destruct 4 demo_world 0 = Some (w', None) \<and> isDestructed (heap w' ! 0)"
    by (auto simp: eval_nat_numeral)
  from one l c three demo_facts(2) demo_wf demo_begin_facts show ?thesis by blast
qed

section \<open>The cascade goes deepest first\<close>

declare ancestors.simps [simp del] depth.simps [simp del]


lemma ancestors_None: "parent_of d el = None \<Longrightarrow> ancestors d el = []"
  by (simp add: ancestors.simps)

lemma ancestors_Some: "parent_of d el = Some p \<Longrightarrow> ancestors d el = p # ancestors d p"
  by (simp add: ancestors.simps)





lemma parent_of_removeAttribute [simp]:
  "parent_of (removeAttribute_light_name x d) el = parent_of d el"
  by (auto simp: parent_of_def split: option.splits)


lemma ancestors_removeAttribute [simp]:
  "ancestors (removeAttribute_light_name x d) el = ancestors d el"
proof (induction d el rule: ancestors.induct)
  case (1 d el)
  show ?case
  proof (cases "parent_of d el")
    case None
    then show ?thesis by (simp add: ancestors_None)
  next
    case (Some p)
    with 1[OF Some] show ?thesis by (simp add: ancestors_Some)
  qed
qed










lemma begin_simps [simp]:
  "dom (begin_destruct c w) = dom w" "log_level (begin_destruct c w) = log_level w"
  "reg_lookup (begin_destruct c w) = reg_lookup w"
  "calls (begin_destruct c w) = calls w @ [(c, DestructBegin)]"
  "length (heap (begin_destruct c w)) = length (heap w)"
  "enabled (begin_destruct c w) = enabled w"
  by (simp_all add: begin_destruct_def fun_eq_iff enabled_def)



lemma root_begin [simp]: "root (heap (begin_destruct c w) ! r) = root (heap w ! r)"
  by (cases "c < length (heap w)") (simp_all add: begin_destruct_def nth_list_update not_less list_update_beyond)

lemma collect_begin [simp]:
  "collectOwnedDescendantsDeepFirst (begin_destruct c w) t = collectOwnedDescendantsDeepFirst w t"
  by (simp add: collectOwnedDescendantsDeepFirst_def)






lemma cleanup_steps_length [simp]:
  "length (heap (cleanup_listeners t w)) = length (heap w)"
  "length (heap (cleanup_disposers t w)) = length (heap w)"
  "length (heap (cleanup_timeouts t w)) = length (heap w)"
  "length (heap (cleanup_intervals t w)) = length (heap w)"
  "length (heap (cleanup_rafs t w)) = length (heap w)"
  "length (heap (cleanup_aborts t w)) = length (heap w)"
  by (simp_all add: cleanup_steps_eq)

lemma cleanup_length [simp]: "length (heap (cleanup t w)) = length (heap w)"
  by (simp add: cleanup_def Let_def)

lemma leaf_misc [simp]:
  "log_level (leaf_done c w) = log_level w" "length (heap (leaf_done c w)) = length (heap w)"
  "enabled (leaf_done c w) = enabled w"
proof -
  show "log_level (leaf_done c w) = log_level w" by (simp add: leaf_done_def)
  then show "enabled (leaf_done c w) = enabled w" by (rule enabled_level)
  show "length (heap (leaf_done c w)) = length (heap w)" by (simp add: leaf_done_def)
qed








section \<open>Acquiring resources\<close>

lemma acquire_timeout:
  assumes "t < length (heap w)"
  shows "snd (setT w t) = next_handle w"
    and "heap (fst (setT w t)) ! t
         = (heap w ! t)\<lparr>timeouts := Set_add (next_handle w) (timeouts (heap w ! t))\<rparr>"
    and "calls (fst (setT w t)) = calls w @ [(t, SetTimeout (next_handle w))]"
  using assms by (simp_all add: setT_def Let_def)

lemma acquire_interval:
  assumes "t < length (heap w)"
  shows "snd (setI w t) = next_handle w"
    and "heap (fst (setI w t)) ! t
         = (heap w ! t)\<lparr>intervals := Set_add (next_handle w) (intervals (heap w ! t))\<rparr>"
    and "calls (fst (setI w t)) = calls w @ [(t, SetInterval (next_handle w))]"
  using assms by (simp_all add: setI_def Let_def)

lemma acquire_frame:
  assumes "t < length (heap w)"
  shows "snd (requestFrame w t) = next_handle w"
    and "heap (fst (requestFrame w t)) ! t
         = (heap w ! t)\<lparr>rafs := Set_add (next_handle w) (rafs (heap w ! t))\<rparr>"
    and "calls (fst (requestFrame w t)) = calls w @ [(t, RequestFrame (next_handle w))]"
  using assms by (simp_all add: requestFrame_def Let_def)

lemma acquire_disposer:
  assumes "t < length (heap w)"
  shows "heap (addDisposer w t (Some f)) ! t
         = (heap w ! t)\<lparr>disposers := disposers (heap w ! t) @ [f]\<rparr>"
  using assms by (simp add: addDisposer_def)

lemma acquire_observer:
  assumes "t < length (heap w)"
  shows "snd (observe kind w t el h) = \<lparr>d_fn = next_handle w, d_throws = None\<rparr>"
    and "heap (fst (observe kind w t el h)) ! t
         = (heap w ! t)\<lparr>disposers := disposers (heap w ! t)
                                      @ [\<lparr>d_fn = next_handle w, d_throws = None\<rparr>]\<rparr>"
    and "calls (fst (observe kind w t el h)) = calls w @ [(t, L_observe kind el h)]"
  using assms by (simp_all add: observe_def Let_def addDisposer_def)

lemma acquire_abort:
  assumes "t < length (heap w)"
  shows "heap (addAbortController w t (Some a)) ! t
         = (heap w ! t)\<lparr>aborts := Set_add a (aborts (heap w ! t))\<rparr>"
  using assms by (simp add: addAbortController_def)

lemma acquire_listener:
  assumes "t < length (heap w)"
  shows "snd (addEvent qs w t (Node n) ty (Direct h opts))
         = RemoveEvent \<lparr>l_target = n, l_type = ty, l_selector = None, l_handler = h,
                         l_opts = (if js_falsy opts then JBool False else opts)\<rparr>"
    and "heap (fst (addEvent qs w t (Node n) ty (Direct h opts))) ! t
         = (heap w ! t)\<lparr>listeners := listeners (heap w ! t)
              @ [\<lparr>l_target = n, l_type = ty, l_selector = None, l_handler = h,
                  l_opts = (if js_falsy opts then JBool False else opts)\<rparr>]\<rparr>"
    and "calls (fst (addEvent qs w t (Node n) ty (Direct h opts)))
         = calls w @ [(t, L_on n ty None h (if js_falsy opts then JBool False else opts))]"
  using assms by (simp_all add: addEvent_def Let_def)

text \<open>
  Claim C3 as stated fails: on the panel of the example world, destructed by \<open>destruct()\<close>,
  \<open>setT\<close> returns a handle, schedules the timeout and tracks it, and \<open>addEvent\<close> subscribes
  and records the listener; nothing is thrown.
\<close>

theorem C3_counterexample:
  "destruct 4 demo_world 0 = Some (demo_after, None)
   \<and> isDestructed (heap demo_after ! 0)
   \<and> snd (setT demo_after 0) = 14
   \<and> timeouts (heap (fst (setT demo_after 0)) ! 0) = [14]
   \<and> calls (fst (setT demo_after 0)) = calls demo_after @ [(0, SetTimeout 14)]
   \<and> listeners (heap (fst (addEvent Map.empty demo_after 0 (Node 4) ''click'' (Direct 11 JUndefined))) ! 0)
     = [\<lparr>l_target = 4, l_type = ''click'', l_selector = None, l_handler = 11, l_opts = JBool False\<rparr>]"
  by code_simp

text \<open>
  Claim C3, amended.  No resource-acquisition method looks at the lifecycle state.  On an
  instance that is not \<open>Active\<close>, as on any other: \<open>setT\<close>, \<open>setI\<close> and \<open>requestFrame\<close>
  schedule with the host, return the new handle and add it to the tracked set;
  \<open>addDisposer\<close> with a function and the three observer helpers append a disposer;
  \<open>addAbortController\<close> with an abort-capable object adds it to the tracked set; \<open>addEvent\<close>
  with a target that resolves subscribes through \<open>L.on\<close>, appends the record and returns
  its remover.  None of them has a throwing path.
\<close>

theorem C3_acquisition_ignores_lifecycle:
  assumes "t < length (heap w)" and "\<not> Active w t"
  shows "snd (setT w t) = next_handle w
      \<and> timeouts (heap (fst (setT w t)) ! t) = Set_add (next_handle w) (timeouts (heap w ! t))
      \<and> calls (fst (setT w t)) = calls w @ [(t, SetTimeout (next_handle w))]
      \<and> snd (setI w t) = next_handle w
      \<and> intervals (heap (fst (setI w t)) ! t) = Set_add (next_handle w) (intervals (heap w ! t))
      \<and> calls (fst (setI w t)) = calls w @ [(t, SetInterval (next_handle w))]
      \<and> snd (requestFrame w t) = next_handle w
      \<and> rafs (heap (fst (requestFrame w t)) ! t) = Set_add (next_handle w) (rafs (heap w ! t))
      \<and> calls (fst (requestFrame w t)) = calls w @ [(t, RequestFrame (next_handle w))]
      \<and> disposers (heap (addDisposer w t (Some f)) ! t) = disposers (heap w ! t) @ [f]
      \<and> disposers (heap (fst (observeResize w t el h)) ! t)
          = disposers (heap w ! t) @ [snd (observeResize w t el h)]
      \<and> disposers (heap (fst (observeIntersection w t el h)) ! t)
          = disposers (heap w ! t) @ [snd (observeIntersection w t el h)]
      \<and> disposers (heap (fst (observeMutation w t el h)) ! t)
          = disposers (heap w ! t) @ [snd (observeMutation w t el h)]
      \<and> aborts (heap (addAbortController w t (Some a)) ! t) = Set_add a (aborts (heap w ! t))
      \<and> listeners (heap (fst (addEvent qs w t (Node n) ty (Direct h opts))) ! t)
          = listeners (heap w ! t)
            @ [\<lparr>l_target = n, l_type = ty, l_selector = None, l_handler = h,
                l_opts = (if js_falsy opts then JBool False else opts)\<rparr>]
      \<and> calls (fst (addEvent qs w t (Node n) ty (Direct h opts)))
          = calls w @ [(t, L_on n ty None h (if js_falsy opts then JBool False else opts))]
      \<and> snd (addEvent qs w t (Node n) ty (Direct h opts))
          = RemoveEvent \<lparr>l_target = n, l_type = ty, l_selector = None, l_handler = h,
                         l_opts = (if js_falsy opts then JBool False else opts)\<rparr>"
  using assms(1)
  by (simp add: acquire_timeout acquire_interval acquire_frame acquire_disposer acquire_abort
      acquire_listener acquire_observer observeResize_def observeIntersection_def
      observeMutation_def)

lemma demo_after_facts: "0 < length (heap demo_after)" "\<not> Active demo_after 0"
  "next_handle demo_after = 14" "timeouts (heap demo_after ! 0) = []"
  by (simp_all add: demo_after_def Active_def bare_def)

theorem C3_witness:
  "0 < length (heap demo_after) \<and> \<not> Active demo_after 0
   \<and> snd (setT demo_after 0) = 14
   \<and> timeouts (heap (fst (setT demo_after 0)) ! 0) = [14]"
proof -
  from C3_acquisition_ignores_lifecycle[OF demo_after_facts(1,2)]
  have "snd (setT demo_after 0) = next_handle demo_after"
    "timeouts (heap (fst (setT demo_after 0)) ! 0)
     = Set_add (next_handle demo_after) (timeouts (heap demo_after ! 0))"
    by blast+
  then show ?thesis using demo_after_facts by (simp add: Set_add_def)
qed

section \<open>A selector that matches nothing\<close>

text \<open>
  Claim C10.  When \<open>addEvent\<close> is given a selector string that \<open>document.querySelector\<close>
  resolves to nothing, it throws nothing and changes nothing: the world it leaves is the
  world it found (no subscription, no record, the listener set as before, so nothing to
  remove at destruction), and the function it returns does nothing when called.
\<close>

theorem C10_addEvent_unresolved_selector:
  assumes "querySelector s = None"
  shows "addEvent querySelector w t (Selector s) type args = (w, Noop)
       \<and> run_ev_disposer t (snd (addEvent querySelector w t (Selector s) type args)) w' = w'
       \<and> listeners (heap (fst (addEvent querySelector w t (Selector s) type args)) ! t)
          = listeners (heap w ! t)
       \<and> calls (fst (addEvent querySelector w t (Selector s) type args)) = calls w
       \<and> destruct n (fst (addEvent querySelector w t (Selector s) type args)) t = destruct n w t"
  using assms by (simp add: addEvent_def run_ev_disposer_def)

theorem C10_witness:
  "(Map.empty :: string \<Rightarrow> nat option) ''#missing'' = None
   \<and> addEvent Map.empty demo_world 0 (Selector ''#missing'') ''click'' (Direct 11 JUndefined)
     = (demo_world, Noop)
   \<and> run_ev_disposer 0 Noop demo_world = demo_world"
proof -
  have h: "(Map.empty :: string \<Rightarrow> nat option) ''#missing'' = None" by simp
  have r: "addEvent Map.empty demo_world 0 (Selector ''#missing'') ''click'' (Direct 11 JUndefined)
             = (demo_world, Noop)
        \<and> run_ev_disposer 0 (snd (addEvent Map.empty demo_world 0 (Selector ''#missing'')
             ''click'' (Direct 11 JUndefined))) demo_world = demo_world"
    using C10_addEvent_unresolved_selector[where querySelector = Map.empty and s = "''#missing''"
      and w = demo_world and t = 0 and type = "''click''" and args = "Direct 11 JUndefined"
      and w' = demo_world, OF h]
    by blast
  note a = conjunct1[OF r] and b = conjunct2[OF r]
  from b have "run_ev_disposer 0 Noop demo_world = demo_world" unfolding a snd_conv .
  with a h show ?thesis by (intro conjI)
qed

section \<open>Properties of the constructor\<close>

lemma LB_assert_None [simp]: "(LB_assert c code d = None) = c"
  by (simp add: L_assert_def Let_def)

lemma LB_assert_True [simp]: "LB_assert True code d = None"
  by (simp add: L_assert_def)

lemma LB_assert_SomeD:
  "LB_assert c code d = Some e \<Longrightarrow> code \<noteq> [] \<Longrightarrow> \<not> c \<and> err_code e = code"
  by (auto simp: L_assert_def Let_def split: if_splits)

lemma LB_assert_False:
  "code \<noteq> [] \<Longrightarrow> \<exists>e. LB_assert False code d = Some e \<and> err_code e = code"
  by (simp add: L_assert_def Let_def)


lemma ensure_globals [simp]:
  "LNG (ensureClassBucket c w) = LNG w" "env_LNG (ensureClassBucket c w) = env_LNG w"
  "next_handle (ensureClassBucket c w) = next_handle w"
  by (simp_all add: ensureClassBucket_def split: option.splits)

lemma ensure_cases:
  "ensureClassBucket c w = w
   \<or> (map_of (REG w) c = None \<and> ensureClassBucket c w = w\<lparr>REG := REG w @ [(c, [])]\<rparr>)"
  by (simp add: ensureClassBucket_def split: option.splits)

lemma construct_invalid:
  assumes "\<not> (i \<noteq> [] \<and> CHR ''#'' \<notin> set i)"
  shows "\<exists>e. construct w k i = (w, Inl e) \<and> err_code e = ''LightBase.INVALID_CONSTRUCTOR_ID''"
proof -
  obtain e where e: "LB_assert False ''LightBase.INVALID_CONSTRUCTOR_ID''
      (ctx_id_cls i (getClassName k)) = Some e"
    "err_code e = ''LightBase.INVALID_CONSTRUCTOR_ID''"
    using LB_assert_False[of "''LightBase.INVALID_CONSTRUCTOR_ID''"] by auto
  from assms e show ?thesis by (auto simp: construct_def Let_def)
qed

lemma construct_occupied:
  assumes v: "i \<noteq> [] \<and> CHR ''#'' \<notin> set i"
    and o: "reg_lookup w (getClassName k) i = Some r"
  shows "\<exists>e. construct w k i = (w, Inl e) \<and> err_code e = ''E_INSTANCE_EXISTS''"
proof -
  from o obtain b where "map_of (REG w) (getClassName k) = Some b"
    by (auto simp: reg_lookup_def split: option.splits)
  then have id: "ensureClassBucket (getClassName k) w = w" by (rule ensure_idem)
  obtain e where e: "LB_assert False ''E_INSTANCE_EXISTS'' (ctx_id_cls i (getClassName k)) = Some e"
    "err_code e = ''E_INSTANCE_EXISTS''"
    using LB_assert_False[of "''E_INSTANCE_EXISTS''"] by auto
  from v o e show ?thesis by (simp add: construct_def Let_def id)
qed

lemma construct_no_element:
  assumes v: "i \<noteq> [] \<and> CHR ''#'' \<notin> set i"
    and o: "reg_lookup w (getClassName k) i = None"
    and n: "getElementById (dom w) i = None"
  shows "\<exists>e. construct w k i = (ensureClassBucket (getClassName k) w, Inl e)
           \<and> err_code e = ''E_NO_ELEMENT''"
proof -
  obtain e where e: "LB_assert False ''E_NO_ELEMENT'' (ctx_id_cls i (getClassName k)) = Some e"
    "err_code e = ''E_NO_ELEMENT''"
    using LB_assert_False[of "''E_NO_ELEMENT''"] by auto
  from v o n e show ?thesis by (simp add: construct_def Let_def)
qed


lemma construct_ok:
  assumes v: "i \<noteq> [] \<and> CHR ''#'' \<notin> set i"
    and o: "reg_lookup w (getClassName k) i = None"
    and f: "getElementById (dom w) i = Some el"
    and m: "light_name (dom w ! el) = None \<or> light_name (dom w ! el) = Some []
            \<or> light_name (dom w ! el) = Some (getClassName k)"
  obtains w' where "construct w k i = (w', Inr (length (heap w)))"
    "dom w' = setAttribute_light_name el (getClassName k) (dom w)"
    "length (heap w') = Suc (length (heap w))"
    "\<And>r. r < length (heap w) \<Longrightarrow> heap w' ! r = heap w ! r"
    "inst_id (heap w' ! length (heap w)) = i" "root (heap w' ! length (heap w)) = el"
    "className (heap w' ! length (heap w)) = getClassName k"
    "Active w' (length (heap w))"
    "\<And>c j. reg_lookup w' c j
       = (if c = getClassName k \<and> j = i then Some (length (heap w)) else reg_lookup w c j)"
    "\<exists>m. calls w' = calls w @ (if enabled w info then [(length (heap w), Console info m None)] else [])"
proof -
  define w' where "w' = fst (construct w k i)"
  have b: "map_of (REG (ensureClassBucket (getClassName k) w)) (getClassName k) \<noteq> None"
    by (simp add: bucket_ensure)
  have c: "construct w k i = (w', Inr (length (heap w)))"
    unfolding w'_def using v o f m by (auto simp: construct_def Let_def)
  have w': "w' = L_log (length (heap w)) info
      (''['' @ getClassName k @ ''#'' @ i @ ''] init v''
         @ (if k_version k \<noteq> [] then k_version k else ''0.0.0'') @ '' locale=''
         @ (if \<not> js_falsy (LNG w) then js_String (LNG w)
            else if env_LNG w \<noteq> [] then env_LNG w else ''pl'')) None
      (bucket_set (getClassName k) i (length (heap w))
        ((ensureClassBucket (getClassName k) w)
          \<lparr>dom := setAttribute_light_name el (getClassName k) (dom w),
           heap := heap w @ [\<lparr>inst_id = i, root = el, className = getClassName k,
                  version = (if k_version k \<noteq> [] then k_version k else ''0.0.0''),
                  inst_locale = (if \<not> js_falsy (LNG w) then js_String (LNG w)
                            else if env_LNG w \<noteq> [] then env_LNG w else ''pl''),
                  isDestructing = False, isDestructed = False,
                  listeners = [], disposers = [], timeouts = [], intervals = [],
                  rafs = [], aborts = []\<rparr>]\<rparr>))"
    unfolding w'_def using v o f m
    by (auto simp: construct_def Let_def)
  have R: "REG ((ensureClassBucket (getClassName k) w)\<lparr>dom := d, heap := h\<rparr>)
           = REG (ensureClassBucket (getClassName k) w)" for d h by simp
  have rl: "reg_lookup ((ensureClassBucket (getClassName k) w)\<lparr>dom := d, heap := h\<rparr>) c j
           = reg_lookup w c j" for d h c j
    using reg_lookup_cong[OF R] by simp
  show ?thesis
  proof (rule that[OF c])
    show "dom w' = setAttribute_light_name el (getClassName k) (dom w)" by (simp add: w')
    show "length (heap w') = Suc (length (heap w))" by (simp add: w')
    show "heap w' ! r = heap w ! r" if "r < length (heap w)" for r
      using that by (simp add: w' nth_append)
    show "inst_id (heap w' ! length (heap w)) = i" by (simp add: w')
    show "root (heap w' ! length (heap w)) = el" by (simp add: w')
    show "className (heap w' ! length (heap w)) = getClassName k" by (simp add: w')
    show "Active w' (length (heap w))" by (simp add: w' Active_def)
    show "reg_lookup w' c j
       = (if c = getClassName k \<and> j = i then Some (length (heap w)) else reg_lookup w c j)" for c j
      using b by (simp add: w' rl)
    show "\<exists>m. calls w' = calls w @ (if enabled w info then [(length (heap w), Console info m None)] else [])"
      by (simp add: w' enabled_def bucket_set_def)
  qed
qed

lemma construct_returns:
  assumes "construct w k i = (w', Inr r)"
  shows "i \<noteq> [] \<and> CHR ''#'' \<notin> set i" "reg_lookup w (getClassName k) i = None"
    "\<exists>el. getElementById (dom w) i = Some el
        \<and> (light_name (dom w ! el) = None \<or> light_name (dom w ! el) = Some []
            \<or> light_name (dom w ! el) = Some (getClassName k))"
  using assms by (auto simp: construct_def Let_def split: option.splits)

lemma construct_throws:
  assumes "construct w k i = (w', Inl e)"
  shows "w' = w \<or> (map_of (REG w) (getClassName k) = None
                   \<and> w' = w\<lparr>REG := REG w @ [(getClassName k, [])]\<rparr>)"
    and "dom w' = dom w" and "heap w' = heap w" and "calls w' = calls w"
    and "reg_lookup w' c j = reg_lookup w c j"
proof -
  from assms have d: "w' = w \<or> w' = ensureClassBucket (getClassName k) w"
    by (auto simp: construct_def Let_def split: option.splits)
  with ensure_cases[of "getClassName k" w]
  show "w' = w \<or> (map_of (REG w) (getClassName k) = None
                   \<and> w' = w\<lparr>REG := REG w @ [(getClassName k, [])]\<rparr>)" by auto
  from d show "dom w' = dom w" "heap w' = heap w" "calls w' = calls w"
    "reg_lookup w' c j = reg_lookup w c j" by auto
qed

text \<open>
  Claim C4 as stated fails: not all validation precedes every mutation.  Constructing a
  \<open>Menu\<close> on the id \<open>nope\<close>, which no element carries, throws \<open>E_NO_ELEMENT\<close>, and the
  registry, which had no bucket for \<open>Menu\<close>, is left with an empty one.
\<close>

theorem C4_counterexample:
  "REG demo_world = [(''Panel'', [(''p'', 0)]), (''Tab'', [(''s'', 1), (''d'', 2)])]
   \<and> snd (construct demo_world Menu_class ''nope'')
       = Inl (Error ''No element found with id \"nope\"'' ''E_NO_ELEMENT''
               (JObj [(''id'', JStr ''nope''), (''cls'', JStr ''Menu'')]))
   \<and> REG (fst (construct demo_world Menu_class ''nope''))
       = [(''Panel'', [(''p'', 0)]), (''Tab'', [(''s'', 1), (''d'', 2)]), (''Menu'', [])]"
  by code_simp

text \<open>
  Claim C4, amended.  When \<open>new C(id)\<close> returns an instance, a second \<open>new C(id)\<close> right
  after it throws \<open>E_INSTANCE_EXISTS\<close> and leaves the world as it was, so the first
  instance is still \<open>Active\<close> and registered; the same holds for every valid id whose
  slot is taken.  A construction that throws changes neither the document, nor the
  instances, nor the calls made, nor any \<open>(kind, id)\<close> entry of the registry: the world is
  unchanged, or it differs only by a new, empty bucket for the kind, which is created
  before the vacancy, element and ownership checks.  A construction that returns has
  passed the four checks in the world it started from; it writes the marker on the
  element found and claims exactly the slot \<open>(kind, id)\<close> for the new instance.
\<close>

theorem C4_duplicate_identity:
  "(construct w k i = (w1, Inr r) \<longrightarrow>
      Active w1 r \<and> reg_lookup w1 (getClassName k) i = Some r
      \<and> (\<exists>e. construct w1 k i = (w1, Inl e) \<and> err_code e = ''E_INSTANCE_EXISTS''))
   \<and> (i \<noteq> [] \<and> CHR ''#'' \<notin> set i \<and> reg_lookup w (getClassName k) i = Some r0 \<longrightarrow>
      (\<exists>e. construct w k i = (w, Inl e) \<and> err_code e = ''E_INSTANCE_EXISTS''))
   \<and> (construct w k i = (w', Inl e) \<longrightarrow>
      dom w' = dom w \<and> heap w' = heap w \<and> calls w' = calls w
      \<and> (\<forall>c j. reg_lookup w' c j = reg_lookup w c j)
      \<and> (w' = w \<or> (map_of (REG w) (getClassName k) = None
                    \<and> w' = w\<lparr>REG := REG w @ [(getClassName k, [])]\<rparr>)))
   \<and> (construct w k i = (w1, Inr r) \<longrightarrow>
      (i \<noteq> [] \<and> CHR ''#'' \<notin> set i) \<and> reg_lookup w (getClassName k) i = None
      \<and> (\<exists>el. getElementById (dom w) i = Some el
            \<and> (light_name (dom w ! el) = None \<or> light_name (dom w ! el) = Some []
                \<or> light_name (dom w ! el) = Some (getClassName k))
            \<and> dom w1 = setAttribute_light_name el (getClassName k) (dom w)
            \<and> root (heap w1 ! r) = el)
      \<and> r = length (heap w)
      \<and> (\<forall>c j. reg_lookup w1 c j
             = (if c = getClassName k \<and> j = i then Some r else reg_lookup w c j)))"
proof -
  have ret: "(i \<noteq> [] \<and> CHR ''#'' \<notin> set i) \<and> reg_lookup w (getClassName k) i = None
      \<and> (\<exists>el. getElementById (dom w) i = Some el
            \<and> (light_name (dom w ! el) = None \<or> light_name (dom w ! el) = Some []
                \<or> light_name (dom w ! el) = Some (getClassName k))
            \<and> dom w1 = setAttribute_light_name el (getClassName k) (dom w)
            \<and> root (heap w1 ! r) = el)
      \<and> r = length (heap w)
      \<and> (\<forall>c j. reg_lookup w1 c j
             = (if c = getClassName k \<and> j = i then Some r else reg_lookup w c j))
      \<and> Active w1 r"
    if c: "construct w k i = (w1, Inr r)"
  proof -
    note R = construct_returns[OF c]
    from R(3) obtain el where el: "getElementById (dom w) i = Some el"
      "light_name (dom w ! el) = None \<or> light_name (dom w ! el) = Some []
        \<or> light_name (dom w ! el) = Some (getClassName k)" by blast
    from construct_ok[OF R(1) R(2) el] obtain w'' where
      w'': "construct w k i = (w'', Inr (length (heap w)))"
        "dom w'' = setAttribute_light_name el (getClassName k) (dom w)"
        "root (heap w'' ! length (heap w)) = el"
        "Active w'' (length (heap w))"
        "\<And>c j. reg_lookup w'' c j
           = (if c = getClassName k \<and> j = i then Some (length (heap w)) else reg_lookup w c j)"
      by metis
    from c w''(1) have eq: "w1 = w''" "r = length (heap w)" by simp_all
    show ?thesis using R(1) R(2) el w''(2-5) unfolding eq by blast
  qed
  have one: "Active w1 r \<and> reg_lookup w1 (getClassName k) i = Some r
      \<and> (\<exists>e. construct w1 k i = (w1, Inl e) \<and> err_code e = ''E_INSTANCE_EXISTS'')"
    if c: "construct w k i = (w1, Inr r)"
  proof -
    from ret[OF c] have v: "i \<noteq> [] \<and> CHR ''#'' \<notin> set i"
      and a: "Active w1 r" and s: "reg_lookup w1 (getClassName k) i = Some r"
      by auto
    from construct_occupied[OF v s] a s show ?thesis by blast
  qed
  have two: "\<exists>e. construct w k i = (w, Inl e) \<and> err_code e = ''E_INSTANCE_EXISTS''"
    if "i \<noteq> [] \<and> CHR ''#'' \<notin> set i \<and> reg_lookup w (getClassName k) i = Some r0"
    using that construct_occupied[of i w k r0] by blast
  have three: "dom w' = dom w \<and> heap w' = heap w \<and> calls w' = calls w
      \<and> (\<forall>c j. reg_lookup w' c j = reg_lookup w c j)
      \<and> (w' = w \<or> (map_of (REG w) (getClassName k) = None
                    \<and> w' = w\<lparr>REG := REG w @ [(getClassName k, [])]\<rparr>))"
    if c: "construct w k i = (w', Inl e)"
    using construct_throws[OF c] by blast
  from ret one two three show ?thesis by blast
qed

lemma demo_construct:
  "snd (construct demo_world Tab_class ''x'') = Inr 3"
  "getClassName Tab_class = ''Tab''"
  by code_simp+

theorem C4_witness:
  "construct demo_world Tab_class ''x'' = (fst (construct demo_world Tab_class ''x''), Inr 3)
   \<and> Active (fst (construct demo_world Tab_class ''x'')) 3
   \<and> reg_lookup (fst (construct demo_world Tab_class ''x'')) ''Tab'' ''x'' = Some 3
   \<and> (\<exists>e. construct (fst (construct demo_world Tab_class ''x'')) Tab_class ''x''
           = (fst (construct demo_world Tab_class ''x''), Inl e)
         \<and> err_code e = ''E_INSTANCE_EXISTS'')"
proof -
  have c: "construct demo_world Tab_class ''x'' = (fst (construct demo_world Tab_class ''x''), Inr 3)"
    using demo_construct(1) by (simp add: prod_eq_iff)
  from C4_duplicate_identity[where w = demo_world and k = Tab_class and i = "''x''"
      and ?w1.0 = "fst (construct demo_world Tab_class ''x'')" and r = 3]
  have "construct demo_world Tab_class ''x'' = (fst (construct demo_world Tab_class ''x''), Inr 3) \<longrightarrow>
      Active (fst (construct demo_world Tab_class ''x'')) 3
      \<and> reg_lookup (fst (construct demo_world Tab_class ''x'')) (getClassName Tab_class) ''x'' = Some 3
      \<and> (\<exists>e. construct (fst (construct demo_world Tab_class ''x'')) Tab_class ''x''
           = (fst (construct demo_world Tab_class ''x''), Inl e)
         \<and> err_code e = ''E_INSTANCE_EXISTS'')"
    by (rule conjunct1)
  with c show ?thesis unfolding demo_construct(2) by blast
qed

section \<open>The ownership marker\<close>







section \<open>Automatic placement of the tip\<close>

lemma first_fit_find:
  "first_fit vp a t off ps acc =
     (case find (candidate_fits vp a t off) ps of
        Some p \<Rightarrow> (p, computePosition a t p off)
      | None \<Rightarrow> acc)"
  by (induction ps) (simp_all add: candidate_fits_def Let_def)

lemma fallbackPlacements_shape:
  "length (fallbackPlacements pref) = 6
   \<and> fallbackPlacements pref ! 0 = pref
   \<and> side (fallbackPlacements pref ! 1) = side pref
   \<and> side (fallbackPlacements pref ! 2) = side pref
   \<and> align (fallbackPlacements pref ! 1) \<noteq> align pref
   \<and> align (fallbackPlacements pref ! 2) \<noteq> align pref
   \<and> align (fallbackPlacements pref ! 1) \<noteq> align (fallbackPlacements pref ! 2)
   \<and> fallbackPlacements pref ! 3 = \<lparr>side = oppositeSide (side pref), align = align pref, auto = True\<rparr>
   \<and> align (fallbackPlacements pref ! 4) = AlignCenter
   \<and> align (fallbackPlacements pref ! 5) = AlignCenter
   \<and> side (fallbackPlacements pref ! 4) \<notin> {side pref, oppositeSide (side pref)}
   \<and> side (fallbackPlacements pref ! 5) \<notin> {side pref, oppositeSide (side pref)}
   \<and> side (fallbackPlacements pref ! 4) \<noteq> side (fallbackPlacements pref ! 5)"
  by (cases "side pref"; cases "align pref") (simp_all add: fallbackPlacements_def)

lemma to_int32_8: "to_int32 8 = 8"
  by (simp add: to_int32_def)

lemma find_first:
  assumes "j < length xs" "P (xs ! j)" "\<forall>i<j. \<not> P (xs ! i)"
  shows "find P xs = Some (xs ! j)"
  using assms by (auto simp: find_Some_iff)

lemma find_none:
  assumes "\<forall>i<length xs. \<not> P (xs ! i)"
  shows "find P xs = None"
  using assms by (auto simp: find_None_iff in_set_conv_nth)

lemma positionWithArrow_first:
  assumes "auto pref" "j < 6" "candidate_fits vp a t off (fallbackPlacements pref ! j)"
    "\<forall>i<j. \<not> candidate_fits vp a t off (fallbackPlacements pref ! i)"
  shows "positionWithArrow vp a t pref off
         = (fallbackPlacements pref ! j, computePosition a t (fallbackPlacements pref ! j) off)"
proof -
  have l: "j < length (fallbackPlacements pref)" using assms(2) fallbackPlacements_shape by simp
  from find_first[OF l, of "candidate_fits vp a t off", OF assms(3,4)] assms(1)
  show ?thesis by (simp add: positionWithArrow_def first_fit_find)
qed

lemma positionWithArrow_none:
  assumes "auto pref" "\<forall>i<6. \<not> candidate_fits vp a t off (fallbackPlacements pref ! i)"
  shows "positionWithArrow vp a t pref off = (pref, computePosition a t pref off)"
proof -
  have "\<forall>i<length (fallbackPlacements pref).
          \<not> candidate_fits vp a t off (fallbackPlacements pref ! i)"
    using assms(2) fallbackPlacements_shape by simp
  from find_none[OF this] assms(1)
  show ?thesis by (simp add: positionWithArrow_def first_fit_find)
qed

text \<open>
  Claim C7 as stated fails in its last part: with a tip of 200 by 200 and a viewport of 100
  by 100 none of the six candidates fits, and the engine applies the preferred placement
  (above, centred), at the position computed for it, not the last candidate (to the right,
  centred).
\<close>

theorem C7_counterexample:
  "auto auto_top_center
   \<and> map (candidate_fits small_viewport mid_anchor big_tip 8) (fallbackPlacements auto_top_center)
       = [False, False, False, False, False, False]
   \<and> last (fallbackPlacements auto_top_center) = \<lparr>side = SideRight, align = AlignCenter, auto = True\<rparr>
   \<and> computePosition mid_anchor big_tip (last (fallbackPlacements auto_top_center)) 8
       = \<lparr>p_left = 68, p_top = -50\<rparr>
   \<and> positionWithArrow small_viewport mid_anchor big_tip auto_top_center 8
       = (auto_top_center, \<lparr>p_left = -50, p_top = -168\<rparr>)"
  by (simp add: positionWithArrow_def candidate_fits_def fallbackPlacements_def
      auto_top_center_def fitsViewport_def computePosition_def to_int32_8 Math_round_def
      small_viewport_def mid_anchor_def big_tip_def)

text \<open>
  Claim C7, amended.  In auto mode the candidates are six, in this order: the preferred
  placement, the two other alignments on the same side, the opposite side at the preferred
  alignment, the two perpendicular sides centred.  A candidate fits when the box of the
  tip at its computed position lies inside the viewport with a margin of 4 on each edge.
  The engine applies the first candidate that fits, at the position computed for it; when
  none fits it applies the preferred placement, the first candidate, at its computed
  position, and it never fails.  Outside auto mode the preferred placement is applied
  without a test.
\<close>

theorem C7_auto_placement:
  "length (fallbackPlacements pref) = 6
   \<and> fallbackPlacements pref ! 0 = pref
   \<and> side (fallbackPlacements pref ! 1) = side pref
   \<and> side (fallbackPlacements pref ! 2) = side pref
   \<and> align (fallbackPlacements pref ! 1) \<noteq> align pref
   \<and> align (fallbackPlacements pref ! 2) \<noteq> align pref
   \<and> align (fallbackPlacements pref ! 1) \<noteq> align (fallbackPlacements pref ! 2)
   \<and> fallbackPlacements pref ! 3 = \<lparr>side = oppositeSide (side pref), align = align pref, auto = True\<rparr>
   \<and> align (fallbackPlacements pref ! 4) = AlignCenter
   \<and> align (fallbackPlacements pref ! 5) = AlignCenter
   \<and> side (fallbackPlacements pref ! 4) \<notin> {side pref, oppositeSide (side pref)}
   \<and> side (fallbackPlacements pref ! 5) \<notin> {side pref, oppositeSide (side pref)}
   \<and> side (fallbackPlacements pref ! 4) \<noteq> side (fallbackPlacements pref ! 5)
   \<and> candidate_fits vp a t off p
       = (4 \<le> real_of_int (p_left (computePosition a t p off))
          \<and> 4 \<le> real_of_int (p_top (computePosition a t p off))
          \<and> real_of_int (p_left (computePosition a t p off)) + s_width t \<le> vp_width vp - 4
          \<and> real_of_int (p_top (computePosition a t p off)) + s_height t \<le> vp_height vp - 4)
   \<and> (auto pref \<and> j < 6 \<and> candidate_fits vp a t off (fallbackPlacements pref ! j)
        \<and> (\<forall>i<j. \<not> candidate_fits vp a t off (fallbackPlacements pref ! i)) \<longrightarrow>
       positionWithArrow vp a t pref off
         = (fallbackPlacements pref ! j, computePosition a t (fallbackPlacements pref ! j) off))
   \<and> (auto pref \<and> (\<forall>i<6. \<not> candidate_fits vp a t off (fallbackPlacements pref ! i)) \<longrightarrow>
       positionWithArrow vp a t pref off = (pref, computePosition a t pref off))
   \<and> (\<not> auto pref \<longrightarrow>
       positionWithArrow vp a t pref off = (pref, computePosition a t pref off))"
proof -
  have f: "candidate_fits vp a t off p
       = (4 \<le> real_of_int (p_left (computePosition a t p off))
          \<and> 4 \<le> real_of_int (p_top (computePosition a t p off))
          \<and> real_of_int (p_left (computePosition a t p off)) + s_width t \<le> vp_width vp - 4
          \<and> real_of_int (p_top (computePosition a t p off)) + s_height t \<le> vp_height vp - 4)"
    by (simp add: candidate_fits_def fitsViewport_def)
  have n: "\<not> auto pref \<longrightarrow>
       positionWithArrow vp a t pref off = (pref, computePosition a t pref off)"
    by (simp add: positionWithArrow_def)
  from fallbackPlacements_shape[of pref] f n
    positionWithArrow_first[of pref j vp a t off] positionWithArrow_none[of pref vp a t off]
  show ?thesis by blast
qed

lemma top_example:
  "fallbackPlacements auto_top_center ! 3 = \<lparr>side = SideBottom, align = AlignCenter, auto = True\<rparr>"
  "candidate_fits wide_viewport top_anchor small_tip 8 (fallbackPlacements auto_top_center ! 3)"
  "\<forall>i<3. \<not> candidate_fits wide_viewport top_anchor small_tip 8 (fallbackPlacements auto_top_center ! i)"
  "computePosition top_anchor small_tip \<lparr>side = SideBottom, align = AlignCenter, auto = True\<rparr> 8
     = \<lparr>p_left = 390, p_top = 38\<rparr>"
  "auto auto_top_center"
  "map (candidate_fits wide_viewport top_anchor small_tip 8) (fallbackPlacements auto_top_center)
     = [False, False, False, True, False, False]"
  by (simp_all add: candidate_fits_def fallbackPlacements_def auto_top_center_def
      fitsViewport_def computePosition_def to_int32_8 Math_round_def wide_viewport_def
      top_anchor_def small_tip_def numeral_3_eq_3 less_Suc_eq)

theorem C7_witness:
  "auto auto_top_center \<and> (3::nat) < 6
   \<and> map (candidate_fits wide_viewport top_anchor small_tip 8) (fallbackPlacements auto_top_center)
       = [False, False, False, True, False, False]
   \<and> positionWithArrow wide_viewport top_anchor small_tip auto_top_center 8
       = (\<lparr>side = SideBottom, align = AlignCenter, auto = True\<rparr>, \<lparr>p_left = 390, p_top = 38\<rparr>)"
proof -
  have j: "(3::nat) < 6" by simp
  note r = C7_auto_placement[where pref = auto_top_center and j = 3 and vp = wide_viewport
      and a = top_anchor and t = small_tip and off = 8]
  from r top_example(2,3,5) j
  have "positionWithArrow wide_viewport top_anchor small_tip auto_top_center 8
         = (fallbackPlacements auto_top_center ! 3,
            computePosition top_anchor small_tip (fallbackPlacements auto_top_center ! 3) 8)"
    by blast
  then have "positionWithArrow wide_viewport top_anchor small_tip auto_top_center 8
       = (\<lparr>side = SideBottom, align = AlignCenter, auto = True\<rparr>, \<lparr>p_left = 390, p_top = 38\<rparr>)"
    unfolding top_example(1,4) .
  with top_example(5,6) j show ?thesis by blast
qed

end
